theory Spec2Isabelle
  imports Complex_Main "HOL-Library.Log_Nat" "HOL-Library.Word"
begin

section \<open>ResizeIt: the preview compositor and the output list of \<open>App.tsx\<close>\<close>

subsection \<open>Data model\<close>

text \<open>
  A TypeScript \<open>number\<close> is an IEEE 754 double. Every finite double is a rational number,
  so finite numbers are values of type \<open>rat\<close>; the results of \<open>Math.floor\<close> and
  \<open>Math.ceil\<close>, array lengths and array indices are integers and have type \<open>int\<close> or
  \<open>nat\<close>. NaN and the infinities are not modelled: no operation below produces one from
  finite operands, the divisors being positive.
\<close>

type_synonym number = rat

datatype OutputFormat = png | jpeg | webp

datatype FitMode = cover | contain

record OutputSpec =
  width :: number
  height :: number
  format :: OutputFormat

text \<open>\<open>Partial<OutputSpec>\<close>: every field may be absent.\<close>

record OutputPatch =
  pwidth :: "number option"
  pheight :: "number option"
  pformat :: "OutputFormat option"

text \<open>
  The two pieces of React state the handlers write: \<open>outputs\<close> and \<open>previewIndex\<close>.
  A handler runs on the state of the render that created it, so the \<open>outputs\<close> of its
  closure is the list its updater receives as \<open>prev\<close>.
\<close>

record AppState =
  outputs :: "OutputSpec list"
  previewIndex :: int

datatype error = OutOfRange

text \<open>
  The destination rectangle handed to \<open>ctx.drawImage(img, 0, 0, srcW, srcH, dx, dy, drawW,
  drawH)\<close>, under the names of the local variables.
\<close>

record Geometry =
  drawW :: int
  drawH :: int
  dx :: int
  dy :: int

subsection \<open>Double-precision arithmetic\<close>

text \<open>
  The operators \<open>*\<close>, \<open>/\<close> and \<open>-\<close> of the source return the exact result rounded to
  the nearest double, ties to the even significand. \<open>expo q\<close> is the binary exponent of a
  positive \<open>q\<close>, the \<open>e\<close> with \<open>2\<^sup>e \<le> q < 2\<^sup>e\<^sup>+\<^sup>1\<close>; \<open>rne\<close> rounds to the nearest
  integer, ties to even; \<open>fl\<close> keeps 53 significant bits. The exponent range of a double
  is not modelled: with image sides below \<open>2\<^sup>3\<^sup>2\<close> and targets up to 8000 every value
  computed below is zero or has a magnitude between \<open>2\<^sup>-\<^sup>3\<^sup>3\<close> and \<open>2\<^sup>4\<^sup>6\<close>, far from
  overflow and underflow.
\<close>

definition expo :: "rat \<Rightarrow> int" where
  "expo q = (if 1 \<le> q then bitlen \<lfloor>q\<rfloor> - 1 else - bitlen (\<lceil>1 / q\<rceil> - 1))"

definition rne :: "rat \<Rightarrow> int" where
  "rne x =
     (let f = \<lfloor>x\<rfloor>; r = x - of_int f
      in if r < 1 / 2 then f else if 1 / 2 < r then f + 1
         else if even f then f else f + 1)"

definition fl :: "rat \<Rightarrow> rat" where
  "fl q =
     (if q = 0 then 0
      else let e = expo \<bar>q\<bar>
           in sgn q * (of_int (rne (\<bar>q\<bar> * 2 powi (52 - e))) * 2 powi (e - 52)))"

definition fmul :: "number \<Rightarrow> number \<Rightarrow> number" where
  "fmul x y = fl (x * y)"

definition fdiv :: "number \<Rightarrow> number \<Rightarrow> number" where
  "fdiv x y = fl (x / y)"

definition fsub :: "number \<Rightarrow> number \<Rightarrow> number" where
  "fsub x y = fl (x - y)"

subsection \<open>The preview compositor\<close>

text \<open>\<open>Math.max(1, Math.min(8000, Math.floor(v)))\<close>\<close>

definition clampDim :: "number \<Rightarrow> int" where
  "clampDim v = max 1 (min 8000 \<lfloor>v\<rfloor>)"

text \<open>
  The body of \<open>img.onload\<close> from \<open>const srcW = img.width\<close> on (the specification's
  \<open>compose\<close>). \<open>img.width\<close> and \<open>img.height\<close> are the \<open>unsigned long\<close> attributes of an
  \<open>HTMLImageElement\<close>, 32-bit unsigned integers; \<open>targetW\<close> and \<open>targetH\<close> are the
  clamped sides. The result is the destination rectangle of the one \<open>drawImage\<close> call
  that runs. With a side of the source equal to 0 the program divides by zero and gets
  an infinity or NaN; every statement below is about sources with positive sides.
\<close>

definition compose :: "32 word \<Rightarrow> 32 word \<Rightarrow> int \<Rightarrow> int \<Rightarrow> bool \<Rightarrow> FitMode \<Rightarrow> Geometry" where
  "compose imgWidth imgHeight targetW targetH maintainAspect fit =
     (let srcW = (of_nat (unat imgWidth) :: number);
          srcH = (of_nat (unat imgHeight) :: number)
      in if \<not> maintainAspect
         then \<lparr>drawW = targetW, drawH = targetH, dx = 0, dy = 0\<rparr>
         else
           let srcAR = fdiv srcW srcH;
               dstAR = fdiv (of_int targetW) (of_int targetH)
           in if fit = cover
              then
                if srcAR > dstAR
                then
                  let drawH' = targetH;
                      drawW' = \<lceil>fmul (of_int targetH) srcAR\<rceil>;
                      dx' = \<lfloor>fdiv (fsub (of_int targetW) (of_int drawW')) 2\<rfloor>;
                      dy' = 0
                  in \<lparr>drawW = drawW', drawH = drawH', dx = dx', dy = dy'\<rparr>
                else
                  let drawW' = targetW;
                      drawH' = \<lceil>fdiv (of_int targetW) srcAR\<rceil>;
                      dx' = 0;
                      dy' = \<lfloor>fdiv (fsub (of_int targetH) (of_int drawH')) 2\<rfloor>
                  in \<lparr>drawW = drawW', drawH = drawH', dx = dx', dy = dy'\<rparr>
              else
                if srcAR > dstAR
                then
                  let drawW' = targetW;
                      drawH' = \<lfloor>fdiv (of_int targetW) srcAR\<rfloor>;
                      dx' = 0;
                      dy' = \<lfloor>fdiv (fsub (of_int targetH) (of_int drawH')) 2\<rfloor>
                  in \<lparr>drawW = drawW', drawH = drawH', dx = dx', dy = dy'\<rparr>
                else
                  let drawH' = targetH;
                      drawW' = \<lfloor>fmul (of_int targetH) srcAR\<rfloor>;
                      dx' = \<lfloor>fdiv (fsub (of_int targetW) (of_int drawW')) 2\<rfloor>;
                      dy' = 0
                  in \<lparr>drawW = drawW', drawH = drawH', dx = dx', dy = dy'\<rparr>)"

text \<open>
  \<open>img.onload\<close> for the output \<open>spec\<close> under preview: the sides are clamped, then the
  rectangle is computed.
\<close>

definition onload :: "OutputSpec \<Rightarrow> 32 word \<Rightarrow> 32 word \<Rightarrow> bool \<Rightarrow> FitMode \<Rightarrow> Geometry" where
  "onload spec imgWidth imgHeight maintainAspect fit =
     (let targetW = clampDim (width spec);
          targetH = clampDim (height spec)
      in compose imgWidth imgHeight targetW targetH maintainAspect fit)"

text \<open>
  The two aspect ratios as the source computes them, \<open>srcW / srcH\<close> and
  \<open>targetW / targetH\<close>: quotients of doubles, rounded.
\<close>

definition srcAspect :: "32 word \<Rightarrow> 32 word \<Rightarrow> number" where
  "srcAspect imgWidth imgHeight = fdiv (of_nat (unat imgWidth)) (of_nat (unat imgHeight))"

definition dstAspect :: "int \<Rightarrow> int \<Rightarrow> number" where
  "dstAspect targetW targetH = fdiv (of_int targetW) (of_int targetH)"

subsection \<open>The geometry as the specification words it\<close>

text \<open>
  Section 4.1 of the specification, for \<open>maintainAspect = true\<close>, in plain arithmetic on
  rational numbers: \<open>srcAspect = source.width / source.height\<close>,
  \<open>dstAspect = target.width / target.height\<close>; for cover, if \<open>srcAspect > dstAspect\<close> then
  \<open>drawHeight = target.height\<close>, \<open>drawWidth = ceil(target.height * srcAspect)\<close>,
  \<open>offsetX = floor((target.width - drawWidth) / 2)\<close>, \<open>offsetY = 0\<close>, else
  \<open>drawWidth = target.width\<close>, \<open>drawHeight = ceil(target.width / srcAspect)\<close>,
  \<open>offsetY = floor((target.height - drawHeight) / 2)\<close>, \<open>offsetX = 0\<close>; for contain the
  outcomes of the two branches are swapped and \<open>floor\<close> replaces \<open>ceil\<close>. No quotient or
  product is rounded here.
\<close>

definition spec_geometry :: "32 word \<Rightarrow> 32 word \<Rightarrow> int \<Rightarrow> int \<Rightarrow> FitMode \<Rightarrow> Geometry" where
  "spec_geometry w h tW tH policy =
     (let srcAspect = (of_nat (unat w) :: rat) / of_nat (unat h);
          dstAspect = (of_int tW :: rat) / of_int tH
      in case policy of
           cover \<Rightarrow>
             if srcAspect > dstAspect
             then let drawHeight = tH; drawWidth = \<lceil>of_int tH * srcAspect\<rceil>
                  in \<lparr>drawW = drawWidth, drawH = drawHeight,
                      dx = \<lfloor>(of_int tW - of_int drawWidth :: rat) / 2\<rfloor>, dy = 0\<rparr>
             else let drawWidth = tW; drawHeight = \<lceil>of_int tW / srcAspect\<rceil>
                  in \<lparr>drawW = drawWidth, drawH = drawHeight,
                      dx = 0, dy = \<lfloor>(of_int tH - of_int drawHeight :: rat) / 2\<rfloor>\<rparr>
         | contain \<Rightarrow>
             if srcAspect > dstAspect
             then let drawWidth = tW; drawHeight = \<lfloor>of_int tW / srcAspect\<rfloor>
                  in \<lparr>drawW = drawWidth, drawH = drawHeight,
                      dx = 0, dy = \<lfloor>(of_int tH - of_int drawHeight :: rat) / 2\<rfloor>\<rparr>
             else let drawHeight = tH; drawWidth = \<lfloor>of_int tH * srcAspect\<rfloor>
                  in \<lparr>drawW = drawWidth, drawH = drawHeight,
                      dx = \<lfloor>(of_int tW - of_int drawWidth :: rat) / 2\<rfloor>, dy = 0\<rparr>)"

subsection \<open>The output list handlers\<close>

definition defaultOutput :: OutputSpec where
  "defaultOutput = \<lparr>width = 512, height = 512, format = png\<rparr>"

text \<open>The object spread \<open>{ ...o, ...patch }\<close>: a field of the patch, when present, wins.\<close>

definition spread :: "OutputSpec \<Rightarrow> OutputPatch \<Rightarrow> OutputSpec" where
  "spread o' patch =
     \<lparr>width = (case pwidth patch of Some w \<Rightarrow> w | None \<Rightarrow> width o'),
      height = (case pheight patch of Some h \<Rightarrow> h | None \<Rightarrow> height o'),
      format = (case pformat patch of Some f \<Rightarrow> f | None \<Rightarrow> format o')\<rparr>"

text \<open>
  \<open>prev.map((o, i) => (i === index ? { ...o, ...patch } : o))\<close>. The function has no
  \<open>throw\<close>: the result is always \<open>Inr\<close>. The index is a number that the callers take
  from an enumeration of the list, an integer here; compared with \<open>===\<close>, an integer
  outside the list equals no position.
\<close>

definition updateOutput :: "int \<Rightarrow> OutputPatch \<Rightarrow> AppState \<Rightarrow> error + AppState" where
  "updateOutput index patch st =
     Inr (st\<lparr>outputs :=
       map (\<lambda>(i, o'). if int i = index then spread o' patch else o')
         (enumerate 0 (outputs st))\<rparr>)"

text \<open>
  \<open>setOutputs((prev) => [...prev, { width: 512, height: 512, format: "png" }]);
  setPreviewIndex(outputs.length);\<close>
\<close>

definition addOutput :: "AppState \<Rightarrow> AppState" where
  "addOutput st =
     st\<lparr>outputs := outputs st @ [defaultOutput],
        previewIndex := int (length (outputs st))\<rparr>"

text \<open>
  \<open>setOutputs((prev) => prev.filter((_, i) => i !== index));
  setPreviewIndex((i) => Math.max(0, Math.min(i, outputs.length - 2)));\<close>
  Like \<open>updateOutput\<close> it never throws.
\<close>

definition removeOutput :: "int \<Rightarrow> AppState \<Rightarrow> error + AppState" where
  "removeOutput index st =
     Inr (st\<lparr>outputs :=
            map snd (filter (\<lambda>(i, _). int i \<noteq> index) (enumerate 0 (outputs st))),
          previewIndex :=
            max 0 (min (previewIndex st) (int (length (outputs st)) - 2))\<rparr>)"

text \<open>An index is valid when it is a position of the list.\<close>

definition validIndex :: "int \<Rightarrow> OutputSpec list \<Rightarrow> bool" where
  "validIndex i xs = (0 \<le> i \<and> i < int (length xs))"

subsection \<open>Rounding to the nearest double\<close>

text \<open>
  What the proofs need of \<open>fl\<close>: it is monotone on positive numbers, it returns a number
  with at most 53 significant bits unchanged, and its relative error is at most
  \<open>2\<^sup>-\<^sup>5\<^sup>3\<close>.
\<close>

lemma rne_of_int [simp]: "rne (of_int n) = n"
  by (simp add: rne_def)

lemma rne_err: "\<bar>of_int (rne x) - x\<bar> \<le> 1 / 2"
  unfolding rne_def Let_def by (auto simp: abs_if) linarith+

lemma rne_mono: assumes "x \<le> y" shows "rne x \<le> rne y"
proof (cases "\<lfloor>x\<rfloor> = \<lfloor>y\<rfloor>")
  case True
  with assms show ?thesis unfolding rne_def Let_def by auto
next
  case False
  with assms have "\<lfloor>x\<rfloor> + 1 \<le> \<lfloor>y\<rfloor>" using floor_mono[OF assms] by linarith
  moreover have "rne x \<le> \<lfloor>x\<rfloor> + 1" unfolding rne_def Let_def by auto
  moreover have "\<lfloor>y\<rfloor> \<le> rne y" unfolding rne_def Let_def by auto
  ultimately show ?thesis by linarith
qed

lemma expo_bounds:
  assumes "0 < q"
  shows "2 powi expo q \<le> q" and "q < 2 powi (expo q + 1)"
proof -
  have "2 powi expo q \<le> q \<and> q < 2 powi (expo q + 1)"
  proof (cases "1 \<le> q")
    case True
    define n where "n = \<lfloor>q\<rfloor>"
    have n: "0 < n" using True by (simp add: n_def)
    have e: "expo q = bitlen n - 1" using True by (simp add: expo_def n_def)
    have b1: "1 \<le> bitlen n" using n by (simp add: bitlen_alt_def)
    from bitlen_bounds[OF n] have lo: "2 ^ nat (bitlen n - 1) \<le> n" and hi: "n < 2 ^ nat (bitlen n)"
      by auto
    have "(2::rat) powi (bitlen n - 1) = of_int (2 ^ nat (bitlen n - 1))"
      using b1 by (simp add: power_int_def)
    also have "\<dots> \<le> of_int n" using lo by (simp only: of_int_le_iff)
    also have "\<dots> \<le> q" by (simp add: n_def)
    finally have A: "2 powi expo q \<le> q" by (simp add: e)
    have "n + 1 \<le> 2 ^ nat (bitlen n)" using hi by simp
    then have "(of_int (n + 1) :: rat) \<le> of_int (2 ^ nat (bitlen n))" by (simp only: of_int_le_iff)
    moreover have "q < of_int (n + 1)" unfolding n_def by linarith
    ultimately have "q < of_int (2 ^ nat (bitlen n))" by linarith
    also have "\<dots> = 2 powi (bitlen n)" using b1 by (simp add: power_int_def)
    finally have "q < 2 powi (expo q + 1)" by (simp add: e)
    with A show ?thesis by simp
  next
    case False
    then have q1: "q < 1" by simp
    define n where "n = \<lceil>1 / q\<rceil> - 1"
    have "1 < 1 / q" using q1 assms by simp
    then have n: "0 < n" unfolding n_def by (simp add: less_ceiling_iff)
    have e: "expo q = - bitlen n" using False by (simp add: expo_def n_def)
    have b1: "1 \<le> bitlen n" using n by (simp add: bitlen_alt_def)
    from bitlen_bounds[OF n] have lo: "2 ^ nat (bitlen n - 1) \<le> n" and hi: "n < 2 ^ nat (bitlen n)"
      by auto
    have "1 / q \<le> of_int (n + 1)" by (simp add: n_def)
    also have "\<dots> \<le> of_int (2 ^ nat (bitlen n))" using hi by (simp only: of_int_le_iff)
    also have "\<dots> = 2 powi (bitlen n)" using b1 by (simp add: power_int_def)
    finally have "1 / q \<le> 2 powi (bitlen n)" .
    then have "1 \<le> q * 2 powi (bitlen n)" using assms by (simp add: field_simps)
    then have A: "2 powi expo q \<le> q" by (simp add: e power_int_minus field_simps)
    have "(2::rat) powi (bitlen n - 1) = of_int (2 ^ nat (bitlen n - 1))"
      using b1 by (simp add: power_int_def)
    also have "\<dots> \<le> of_int n" using lo by (simp only: of_int_le_iff)
    also have "\<dots> < 1 / q" unfolding n_def by linarith
    finally have "2 powi (bitlen n - 1) < 1 / q" .
    then have "q * 2 powi (bitlen n - 1) < 1" using assms by (simp add: field_simps)
    moreover have P: "0 < (2::rat) powi (bitlen n - 1)" by simp
    ultimately have "q < 1 / 2 powi (bitlen n - 1)" by (simp add: pos_less_divide_eq)
    moreover have "expo q + 1 = - (bitlen n - 1)" by (simp add: e)
    ultimately have "q < 2 powi (expo q + 1)" by (simp only: power_int_minus_divide)
    with A show ?thesis by simp
  qed
  then show "2 powi expo q \<le> q" and "q < 2 powi (expo q + 1)" by auto
qed

lemma pow2_less_imp:
  assumes "(2::rat) powi a < 2 powi b"
  shows "a < b"
proof (rule ccontr)
  assume "\<not> a < b"
  then have "b \<le> a" by simp
  then have "(2::rat) powi b \<le> 2 powi a" by (rule power_int_increasing) simp
  with assms show False by simp
qed

lemma pow2_add: "(2::rat) powi a * 2 powi b = 2 powi (a + b)"
  by (simp add: power_int_add)

lemma expo_unique:
  assumes "2 powi e \<le> q" and "q < 2 powi (e + 1)"
  shows "expo q = e"
proof -
  have q: "0 < q" using assms(1) by (rule less_le_trans[rotated]) simp
  note b = expo_bounds[OF q]
  have "(2::rat) powi e < 2 powi (expo q + 1)" using assms(1) b(2) by linarith
  then have 1: "e < expo q + 1" by (rule pow2_less_imp)
  have "(2::rat) powi expo q < 2 powi (e + 1)" using assms(2) b(1) by linarith
  then have 2: "expo q < e + 1" by (rule pow2_less_imp)
  from 1 2 show ?thesis by linarith
qed

lemma expo_mono:
  assumes "0 < x" and "x \<le> y"
  shows "expo x \<le> expo y"
proof -
  have y: "0 < y" using assms by linarith
  have "(2::rat) powi expo x < 2 powi (expo y + 1)"
    using expo_bounds(1)[OF assms(1)] expo_bounds(2)[OF y] assms(2) by linarith
  then have "expo x < expo y + 1" by (rule pow2_less_imp)
  then show ?thesis by linarith
qed


lemma fl_pos:
  "0 < q \<Longrightarrow> fl q = of_int (rne (q * 2 powi (52 - expo q))) * 2 powi (expo q - 52)"
  by (simp add: fl_def Let_def)

lemma fl_zero [simp]: "fl 0 = 0"
  by (simp add: fl_def)

lemma fl_minus: "fl (- q) = - fl q"
  by (simp add: fl_def Let_def sgn_minus)

lemma scaled_bounds:
  assumes "0 < q"
  shows "2 ^ 52 \<le> q * 2 powi (52 - expo q)" and "q * 2 powi (52 - expo q) < 2 ^ 53"
proof -
  have P: "0 < (2::rat) powi (52 - expo q)" by simp
  have "(2::rat) powi expo q * 2 powi (52 - expo q) = 2 powi 52"
    by (simp flip: power_int_add)
  moreover have "2 powi expo q * 2 powi (52 - expo q) \<le> q * 2 powi (52 - expo q)"
    using expo_bounds(1)[OF assms] P by (simp only: mult_le_cancel_right_pos)
  ultimately show "2 ^ 52 \<le> q * 2 powi (52 - expo q)" by simp
  have "(2::rat) powi (expo q + 1) * 2 powi (52 - expo q) = 2 powi 53"
    by (simp flip: power_int_add)
  moreover have "q * 2 powi (52 - expo q) < 2 powi (expo q + 1) * 2 powi (52 - expo q)"
    using expo_bounds(2)[OF assms] P by (simp only: mult_less_cancel_right_pos)
  ultimately show "q * 2 powi (52 - expo q) < 2 ^ 53" by simp
qed

lemma mant_bounds:
  assumes "0 < q"
  shows "2 ^ 52 \<le> rne (q * 2 powi (52 - expo q))" and "rne (q * 2 powi (52 - expo q)) \<le> 2 ^ 53"
proof -
  have "rne (of_int (2 ^ 52)) \<le> rne (q * 2 powi (52 - expo q))"
    by (rule rne_mono) (use scaled_bounds(1)[OF assms] in simp)
  then show "2 ^ 52 \<le> rne (q * 2 powi (52 - expo q))" by (simp only: rne_of_int)
  have "rne (q * 2 powi (52 - expo q)) \<le> rne (of_int (2 ^ 53))"
    by (rule rne_mono) (use scaled_bounds(2)[OF assms] in simp)
  then show "rne (q * 2 powi (52 - expo q)) \<le> 2 ^ 53" by (simp only: rne_of_int)
qed

lemma fl_binade:
  assumes "0 < q"
  shows "2 powi expo q \<le> fl q" and "fl q \<le> 2 powi (expo q + 1)"
proof -
  have P: "0 < (2::rat) powi (expo q - 52)" by simp
  have "(of_int (2 ^ 52) :: rat) \<le> of_int (rne (q * 2 powi (52 - expo q)))"
    using mant_bounds(1)[OF assms] by (simp only: of_int_le_iff)
  then have "of_int (2 ^ 52) * 2 powi (expo q - 52) \<le> fl q"
    using P by (simp only: fl_pos[OF assms] mult_le_cancel_right_pos)
  moreover have "(of_int (2 ^ 52) :: rat) * 2 powi (expo q - 52) = 2 powi expo q"
  proof -
    have "(2::rat) powi 52 * 2 powi (expo q - 52) = 2 powi (52 + (expo q - 52))"
      by (rule pow2_add)
    then show ?thesis by simp
  qed
  ultimately show "2 powi expo q \<le> fl q" by simp
  have "(of_int (rne (q * 2 powi (52 - expo q))) :: rat) \<le> of_int (2 ^ 53)"
    using mant_bounds(2)[OF assms] by (simp only: of_int_le_iff)
  then have "fl q \<le> of_int (2 ^ 53) * 2 powi (expo q - 52)"
    using P by (simp only: fl_pos[OF assms] mult_le_cancel_right_pos)
  moreover have "(of_int (2 ^ 53) :: rat) * 2 powi (expo q - 52) = 2 powi (expo q + 1)"
  proof -
    have "(2::rat) powi 53 * 2 powi (expo q - 52) = 2 powi (53 + (expo q - 52))"
      by (rule pow2_add)
    moreover have "53 + (expo q - 52) = expo q + 1" by simp
    ultimately show ?thesis by simp
  qed
  ultimately show "fl q \<le> 2 powi (expo q + 1)" by simp
qed

lemma fl_pos_pos: "0 < q \<Longrightarrow> 0 < fl q"
  using fl_binade(1)[of q] by (rule_tac less_le_trans[of 0 "2 powi expo q"]) simp_all

lemma fl_mono_pos:
  assumes "0 < x" and "x \<le> y"
  shows "fl x \<le> fl y"
proof -
  have y: "0 < y" using assms by linarith
  have le: "expo x \<le> expo y" using assms by (rule expo_mono)
  show ?thesis
  proof (cases "expo x = expo y")
    case True
    have P: "0 < (2::rat) powi (52 - expo y)" by simp
    have "x * 2 powi (52 - expo y) \<le> y * 2 powi (52 - expo y)"
      using assms(2) P by (simp only: mult_le_cancel_right_pos)
    then have "rne (x * 2 powi (52 - expo y)) \<le> rne (y * 2 powi (52 - expo y))"
      by (rule rne_mono)
    then have "(of_int (rne (x * 2 powi (52 - expo y))) :: rat)
        \<le> of_int (rne (y * 2 powi (52 - expo y)))"
      by (simp only: of_int_le_iff)
    then show ?thesis
      by (simp only: fl_pos[OF assms(1)] fl_pos[OF y] True mult_le_cancel_right_pos
          zero_less_power_int zero_less_numeral)
  next
    case False
    with le have "expo x + 1 \<le> expo y" by linarith
    then have "(2::rat) powi (expo x + 1) \<le> 2 powi expo y"
      by (rule power_int_increasing) simp
    with fl_binade(2)[OF assms(1)] fl_binade(1)[OF y] show ?thesis by linarith
  qed
qed

lemma fl_exact_pos:
  assumes "0 < m" and "m < 2 ^ 53"
  shows "fl (of_int m * 2 powi k) = of_int m * 2 powi k"
proof -
  define q :: rat where "q = of_int m * 2 powi k"
  have q: "0 < q" using assms(1) by (simp add: q_def)
  have "(2::rat) powi expo q \<le> q" by (rule expo_bounds(1)[OF q])
  also have "q < of_int (2 ^ 53) * 2 powi k"
    unfolding q_def using assms(2) by (simp only: mult_less_cancel_right_pos zero_less_power_int zero_less_numeral of_int_less_iff)
  also have "\<dots> = 2 powi (53 + k)"
    by (simp add: power_int_add)
  finally have "expo q < 53 + k" by (rule pow2_less_imp)
  then have nn: "0 \<le> k + 52 - expo q" by linarith
  have "q * 2 powi (52 - expo q) = of_int m * (2 powi k * 2 powi (52 - expo q))"
    by (simp add: q_def)
  also have "2 powi k * (2::rat) powi (52 - expo q) = 2 powi (k + 52 - expo q)"
    by (simp flip: power_int_add add: algebra_simps)
  also have "\<dots> = of_int (2 ^ nat (k + 52 - expo q))"
    using nn by (simp add: power_int_def)
  finally have "q * 2 powi (52 - expo q) = of_int (m * 2 ^ nat (k + 52 - expo q))"
    by simp
  then have "fl q = of_int (m * 2 ^ nat (k + 52 - expo q)) * 2 powi (expo q - 52)"
    by (simp only: fl_pos[OF q] rne_of_int)
  also have "\<dots> = of_int m * (2 powi (k + 52 - expo q) * 2 powi (expo q - 52))"
    using nn by (simp add: power_int_def)
  also have "2 powi (k + 52 - expo q) * (2::rat) powi (expo q - 52) = 2 powi k"
    by (simp flip: power_int_add)
  finally show ?thesis by (simp add: q_def)
qed

lemma fl_err:
  assumes "0 < q"
  shows "\<bar>fl q - q\<bar> \<le> q / 2 ^ 53"
proof -
  define s where "s = q * 2 powi (52 - expo q)"
  have P: "0 < (2::rat) powi (expo q - 52)" by simp
  have "s * 2 powi (expo q - 52) = q * (2 powi (52 - expo q) * 2 powi (expo q - 52))"
    by (simp add: s_def)
  also have "(2::rat) powi (52 - expo q) * 2 powi (expo q - 52) = 1"
    by (simp flip: power_int_add)
  finally have qs: "q = s * 2 powi (expo q - 52)" by simp
  have "fl q - q = (of_int (rne s) - s) * 2 powi (expo q - 52)"
    using qs by (simp add: fl_pos[OF assms] s_def algebra_simps)
  then have "\<bar>fl q - q\<bar> = \<bar>of_int (rne s) - s\<bar> * 2 powi (expo q - 52)"
    by (simp add: abs_mult)
  also have "\<dots> \<le> 1 / 2 * 2 powi (expo q - 52)"
    using rne_err[of s] P by (simp only: mult_le_cancel_right_pos)
  also have "\<dots> = 2 powi expo q / 2 ^ 53"
  proof -
    have "(2::rat) powi (expo q - 52) = 2 powi expo q / 2 powi 52"
      by (simp add: power_int_diff)
    then show ?thesis by simp
  qed
  also have "\<dots> \<le> q / 2 ^ 53"
    using expo_bounds(1)[OF assms] by (simp add: divide_right_mono)
  finally show ?thesis .
qed

subsection \<open>Exact operations and the scaled sides\<close>

text \<open>
  Differences of integers below \<open>2\<^sup>5\<^sup>3\<close> and their halves are exact, so
  \<open>Math.floor((targetW - drawW) / 2)\<close> is the integer \<open>(targetW - drawW) div 2\<close>. The
  rounded ratio \<open>targetW / targetH\<close> is within \<open>2\<^sup>-\<^sup>5\<^sup>3\<close> of the exact one, and with
  sides up to 8000 the rounded product and quotient stay within half a pixel of the
  target's side on the right side of the comparison of the two ratios.
\<close>

lemma fl_exact:
  assumes "\<bar>m\<bar> < 2 ^ 53"
  shows "fl (of_int m * 2 powi k) = of_int m * 2 powi k"
proof -
  consider "0 < m" | "m = 0" | "m < 0" by linarith
  then show ?thesis
  proof cases
    case 1
    then show ?thesis using assms by (intro fl_exact_pos) simp_all
  next
    case 2
    then show ?thesis by simp
  next
    case 3
    then have "fl (of_int (- m) * 2 powi k) = of_int (- m) * 2 powi k"
      using assms by (intro fl_exact_pos) simp_all
    then have "fl (- (of_int m * 2 powi k)) = - (of_int m * 2 powi k)" by simp
    then show ?thesis by (simp only: fl_minus neg_equal_iff_equal)
  qed
qed

lemma fl_of_int: "\<bar>m\<bar> < 2 ^ 53 \<Longrightarrow> fl (of_int m) = of_int m"
  using fl_exact[of m 0] by simp

lemma fl_half: "\<bar>m\<bar> < 2 ^ 53 \<Longrightarrow> fl (of_int m / 2) = of_int m / 2"
  using fl_exact[of m "-1"] by (simp add: power_int_minus_divide)

lemma offset_exact:
  assumes "\<bar>a - b\<bar> < 2 ^ 53"
  shows "\<lfloor>fdiv (fsub (of_int a) (of_int b)) 2\<rfloor> = (a - b) div 2"
proof -
  have "fsub (of_int a) (of_int b) = of_int (a - b)"
    using fl_of_int[OF assms] by (simp add: fsub_def)
  then have e: "fdiv (fsub (of_int a) (of_int b)) 2 = of_int (a - b) / of_int 2"
    using fl_half[OF assms] by (simp add: fdiv_def)
  show ?thesis unfolding e by (rule floor_divide_of_int_eq)
qed


lemma fdiv_rel_error:
  fixes a b :: rat
  assumes "0 < a" and "0 < b"
  shows "a / b * (1 - 1 / 2 ^ 53) \<le> fdiv a b" and "fdiv a b \<le> a / b * (1 + 1 / 2 ^ 53)"
    and "0 < fdiv a b"
proof -
  have q: "0 < a / b" using assms by simp
  from fl_err[OF q] have "\<bar>fdiv a b - a / b\<bar> \<le> a / b / 2 ^ 53" by (simp add: fdiv_def)
  then show "a / b * (1 - 1 / 2 ^ 53) \<le> fdiv a b" and "fdiv a b \<le> a / b * (1 + 1 / 2 ^ 53)"
    by (simp_all add: abs_le_iff algebra_simps)
  show "0 < fdiv a b" unfolding fdiv_def using q by (rule fl_pos_pos)
qed

lemma half_exact_plus: "0 \<le> n \<Longrightarrow> n \<le> 8000 \<Longrightarrow> fl (of_int n + 1 / 2) = of_int n + 1 / 2"
  using fl_half[of "2 * n + 1"] by (simp add: add_divide_distrib)

lemma half_exact_minus: "1 \<le> n \<Longrightarrow> n \<le> 8000 \<Longrightarrow> fl (of_int n - 1 / 2) = of_int n - 1 / 2"
  using fl_half[of "2 * n - 1"] by (simp add: diff_divide_distrib)

lemma prod_upper:
  fixes a b d s :: rat
  assumes a: "1 \<le> a" "a \<le> 8000" and b: "1 \<le> b"
    and d: "d \<le> a / b * (1 + 1 / 2 ^ 53)" and s: "0 < s" "s \<le> d"
  shows "b * s \<le> a + 1 / 2"
proof -
  have "b * s \<le> b * d" using s b by (intro mult_left_mono) simp_all
  also have "\<dots> \<le> b * (a / b * (1 + 1 / 2 ^ 53))" using d b by (intro mult_left_mono) simp_all
  also have "\<dots> = a + a / 2 ^ 53" using b by (simp add: field_simps)
  also have "\<dots> \<le> a + 1 / 2" using a by simp
  finally show ?thesis .
qed

lemma prod_lower:
  fixes a b d s :: rat
  assumes a: "1 \<le> a" "a \<le> 8000" and b: "1 \<le> b"
    and d: "a / b * (1 - 1 / 2 ^ 53) \<le> d" and s: "d \<le> s"
  shows "a - 1 / 2 \<le> b * s"
proof -
  have "a - 1 / 2 \<le> a - a / 2 ^ 53" using a by simp
  also have "\<dots> = b * (a / b * (1 - 1 / 2 ^ 53))" using b by (simp add: field_simps)
  also have "\<dots> \<le> b * d" using d b by (intro mult_left_mono) simp_all
  also have "\<dots> \<le> b * s" using s b by (intro mult_left_mono) simp_all
  finally show ?thesis .
qed

lemma quot_upper:
  fixes a b d s :: rat
  assumes a: "1 \<le> a" and b: "1 \<le> b" "b \<le> 8000"
    and d: "a / b * (1 - 1 / 2 ^ 53) \<le> d" and s: "d \<le> s"
  shows "a / s \<le> b + 1 / 2"
proof -
  have d0: "0 < a / b * (1 - 1 / 2 ^ 53)" using a b by simp
  then have s0: "0 < s" using d s by linarith
  have "b \<le> (b + 1 / 2) * (1 - 1 / 2 ^ 53)" using b by (simp add: algebra_simps)
  then have "a / b * b \<le> a / b * ((b + 1 / 2) * (1 - 1 / 2 ^ 53))"
    using a b by (intro mult_left_mono) simp_all
  then have "a \<le> (b + 1 / 2) * (a / b * (1 - 1 / 2 ^ 53))"
    using b by (simp add: mult_ac)
  also have "\<dots> \<le> (b + 1 / 2) * s" using d s b by (intro mult_left_mono) simp_all
  finally show ?thesis using s0 by (simp add: pos_divide_le_eq)
qed

lemma quot_lower:
  fixes a b d s :: rat
  assumes a: "1 \<le> a" and b: "1 \<le> b" "b \<le> 8000"
    and d: "d \<le> a / b * (1 + 1 / 2 ^ 53)" and s: "0 < s" "s \<le> d"
  shows "b - 1 / 2 \<le> a / s"
proof -
  have "(b - 1 / 2) * s \<le> (b - 1 / 2) * (a / b * (1 + 1 / 2 ^ 53))"
    using d s b by (intro mult_left_mono) simp_all
  also have "\<dots> = a / b * ((b - 1 / 2) * (1 + 1 / 2 ^ 53))" by (simp add: mult_ac)
  also have "\<dots> \<le> a / b * b"
  proof (rule mult_left_mono)
    show "(b - 1 / 2) * (1 + 1 / 2 ^ 53) \<le> b" using b by (simp add: algebra_simps)
    show "0 \<le> a / b" using a b by simp
  qed
  also have "\<dots> = a" using b by simp
  finally show ?thesis using s by (simp add: pos_le_divide_eq)
qed


lemma img_side:
  fixes w :: "32 word"
  assumes "0 < w"
  shows "(1::rat) \<le> of_nat (unat w)" and "(of_nat (unat w) :: rat) < 2 ^ 32"
proof -
  have "1 \<le> unat w" using assms by (simp add: word_less_nat_alt)
  then have "(of_nat 1 :: rat) \<le> of_nat (unat w)" by (simp only: of_nat_le_iff)
  then show "(1::rat) \<le> of_nat (unat w)" by (simp only: of_nat_1)
  have "unat w < 2 ^ 32" using unsigned_less[of w, where ?'a = nat] by simp
  then have "(of_nat (unat w) :: rat) < of_nat (2 ^ 32)" by (simp only: of_nat_less_iff)
  then show "(of_nat (unat w) :: rat) < 2 ^ 32" by (simp only: of_nat_power of_nat_numeral)
qed

lemma fl_pow2: "fl (2 powi k) = 2 powi k"
  using fl_exact_pos[of 1 k] by simp

lemma fl_le_pow45:
  assumes "0 < x" and "x \<le> 2 ^ 45"
  shows "fl x \<le> 2 ^ 45"
proof -
  have e: "fl (2 ^ 45) = 2 ^ 45" using fl_pow2[of 45] by simp
  have "fl x \<le> fl (2 ^ 45)" by (rule fl_mono_pos[OF assms])
  then show ?thesis by (simp only: e)
qed

lemma fdiv_side_bounds:
  fixes sW sH :: rat
  assumes W: "1 \<le> sW" "sW < 2 ^ 32" and H: "1 \<le> sH" "sH < 2 ^ 32"
  shows "1 / 2 ^ 32 \<le> fdiv sW sH" and "fdiv sW sH \<le> 2 ^ 32"
proof -
  have h0: "0 < sH" using H(1) by linarith
  have "1 / 2 ^ 32 \<le> 1 / sH"
    using H h0 by (intro divide_left_mono) simp_all
  also have "\<dots> \<le> sW / sH" using W(1) h0 by (intro divide_right_mono) simp_all
  finally have lo: "1 / 2 ^ 32 \<le> sW / sH" .
  have "sW / sH \<le> sW / 1"
    using H(1) W(1) by (intro divide_left_mono) simp_all
  also have "\<dots> \<le> 2 ^ 32" using W(2) by simp
  finally have hi: "sW / sH \<le> 2 ^ 32" .
  have e1: "fl (1 / 2 ^ 32) = 1 / 2 ^ 32"
    using fl_pow2[of "- 32"] by (simp add: power_int_minus_divide)
  have e2: "fl (2 ^ 32) = 2 ^ 32" using fl_pow2[of 32] by simp
  have "fl (1 / 2 ^ 32) \<le> fl (sW / sH)"
    by (rule fl_mono_pos[OF _ lo]) simp
  then show "1 / 2 ^ 32 \<le> fdiv sW sH" by (simp only: e1 fdiv_def)
  have q0: "0 < sW / sH" using lo by (rule less_le_trans[rotated]) simp
  have "fl (sW / sH) \<le> fl (2 ^ 32)" by (rule fl_mono_pos[OF q0 hi])
  then show "fdiv sW sH \<le> 2 ^ 32" by (simp only: e2 fdiv_def)
qed

lemma srcAspect_bounds:
  assumes "0 < w" and "0 < h"
  shows "1 / 2 ^ 32 \<le> srcAspect w h" and "srcAspect w h \<le> 2 ^ 32"
  unfolding srcAspect_def
  using fdiv_side_bounds[OF img_side[OF assms(1)] img_side[OF assms(2)]] by blast+


lemma dstAspect_bounds:
  assumes "1 \<le> tW" and "1 \<le> tH"
  shows "of_int tW / of_int tH * (1 - 1 / 2 ^ 53) \<le> dstAspect tW tH"
    and "dstAspect tW tH \<le> of_int tW / of_int tH * (1 + 1 / 2 ^ 53)"
    and "0 < dstAspect tW tH"
  unfolding dstAspect_def using assms by (intro fdiv_rel_error; simp)+

lemma fmul_le_target:
  assumes t: "1 \<le> tW" "tW \<le> 8000" "1 \<le> tH" and s: "0 < s" "s \<le> dstAspect tW tH"
  shows "fmul (of_int tH) s \<le> of_int tW + 1 / 2"
proof -
  have "of_int tH * s \<le> of_int tW + 1 / 2"
    by (rule prod_upper[OF _ _ _ dstAspect_bounds(2)[OF t(1) t(3)] s]) (use t in simp_all)
  moreover have "0 < of_int tH * s" using t s by simp
  ultimately have "fl (of_int tH * s) \<le> fl (of_int tW + 1 / 2)" by (rule fl_mono_pos[rotated])
  then show ?thesis using t by (simp only: fmul_def half_exact_plus)
qed

lemma fmul_ge_target:
  assumes t: "1 \<le> tW" "tW \<le> 8000" "1 \<le> tH" and s: "dstAspect tW tH \<le> s"
  shows "of_int tW - 1 / 2 \<le> fmul (of_int tH) s"
proof -
  have "of_int tW - 1 / 2 \<le> of_int tH * s"
    by (rule prod_lower[OF _ _ _ dstAspect_bounds(1)[OF t(1) t(3)] s]) (use t in simp_all)
  moreover have "(0::rat) < of_int tW - 1 / 2" using t by simp
  ultimately have "fl (of_int tW - 1 / 2) \<le> fl (of_int tH * s)" by (rule fl_mono_pos[rotated])
  then show ?thesis using t by (simp only: fmul_def half_exact_minus)
qed

lemma fdiv_le_target:
  assumes t: "1 \<le> tW" "1 \<le> tH" "tH \<le> 8000" and s: "dstAspect tW tH \<le> s"
  shows "fdiv (of_int tW) s \<le> of_int tH + 1 / 2"
proof -
  have s0: "0 < s" using dstAspect_bounds(3)[OF t(1) t(2)] s by linarith
  have "of_int tW / s \<le> of_int tH + 1 / 2"
    by (rule quot_upper[OF _ _ _ dstAspect_bounds(1)[OF t(1) t(2)] s]) (use t in simp_all)
  moreover have "0 < of_int tW / s" using t s0 by simp
  ultimately have "fl (of_int tW / s) \<le> fl (of_int tH + 1 / 2)" by (rule fl_mono_pos[rotated])
  then show ?thesis using t by (simp only: fdiv_def half_exact_plus)
qed

lemma fdiv_ge_target:
  assumes t: "1 \<le> tW" "1 \<le> tH" "tH \<le> 8000" and s: "0 < s" "s \<le> dstAspect tW tH"
  shows "of_int tH - 1 / 2 \<le> fdiv (of_int tW) s"
proof -
  have "of_int tH - 1 / 2 \<le> of_int tW / s"
    by (rule quot_lower[OF _ _ _ dstAspect_bounds(2)[OF t(1) t(2)] s]) (use t in simp_all)
  moreover have "(0::rat) < of_int tH - 1 / 2" using t by simp
  ultimately have "fl (of_int tH - 1 / 2) \<le> fl (of_int tW / s)" by (rule fl_mono_pos[rotated])
  then show ?thesis using t by (simp only: fdiv_def half_exact_minus)
qed


lemma ceiling_ge_half: "of_int n - 1 / 2 \<le> (x::rat) \<Longrightarrow> n \<le> \<lceil>x\<rceil>"
  by linarith

lemma ceiling_le_half: "(x::rat) \<le> of_int n + 1 / 2 \<Longrightarrow> \<lceil>x\<rceil> \<le> n + 1"
  by linarith

lemma floor_le_half: "(x::rat) \<le> of_int n + 1 / 2 \<Longrightarrow> \<lfloor>x\<rfloor> \<le> n"
  by linarith

lemma floor_ge_half: "of_int n - 1 / 2 \<le> (x::rat) \<Longrightarrow> n - 1 \<le> \<lfloor>x\<rfloor>"
  by linarith

lemma ceiling_le_pow45:
  assumes "0 < x" and "x \<le> 2 ^ 45"
  shows "\<lceil>fl x\<rceil> \<le> 2 ^ 45"
proof -
  have "fl x \<le> of_int (2 ^ 45)" using fl_le_pow45[OF assms] by simp
  then show ?thesis by (simp only: ceiling_le_iff)
qed

lemma abs_diff_cover: "t \<le> x \<Longrightarrow> x \<le> 2 ^ 45 \<Longrightarrow> 1 \<le> t \<Longrightarrow> \<bar>t - x\<bar> < (2::int) ^ 53"
  by simp

lemma abs_diff_contain: "0 \<le> x \<Longrightarrow> x \<le> t \<Longrightarrow> t \<le> 8000 \<Longrightarrow> \<bar>t - x\<bar> < (2::int) ^ 53"
  by simp

lemma compose_unfold:
  "compose w h tW tH True fit =
     (if fit = cover
      then if dstAspect tW tH < srcAspect w h
        then \<lparr>drawW = \<lceil>fmul (of_int tH) (srcAspect w h)\<rceil>, drawH = tH,
              dx = \<lfloor>fdiv (fsub (of_int tW) (of_int \<lceil>fmul (of_int tH) (srcAspect w h)\<rceil>)) 2\<rfloor>,
              dy = 0\<rparr>
        else \<lparr>drawW = tW, drawH = \<lceil>fdiv (of_int tW) (srcAspect w h)\<rceil>, dx = 0,
              dy = \<lfloor>fdiv (fsub (of_int tH) (of_int \<lceil>fdiv (of_int tW) (srcAspect w h)\<rceil>)) 2\<rfloor>\<rparr>
      else if dstAspect tW tH < srcAspect w h
        then \<lparr>drawW = tW, drawH = \<lfloor>fdiv (of_int tW) (srcAspect w h)\<rfloor>, dx = 0,
              dy = \<lfloor>fdiv (fsub (of_int tH) (of_int \<lfloor>fdiv (of_int tW) (srcAspect w h)\<rfloor>)) 2\<rfloor>\<rparr>
        else \<lparr>drawW = \<lfloor>fmul (of_int tH) (srcAspect w h)\<rfloor>, drawH = tH,
              dx = \<lfloor>fdiv (fsub (of_int tW) (of_int \<lfloor>fmul (of_int tH) (srcAspect w h)\<rfloor>)) 2\<rfloor>,
              dy = 0\<rparr>)"
  by (simp add: compose_def Let_def srcAspect_def dstAspect_def)

lemma cover_wide:
  assumes s: "0 < w" "0 < h" and t: "1 \<le> tW" "tW \<le> 8000" "1 \<le> tH" "tH \<le> 8000"
    and c: "dstAspect tW tH < srcAspect w h"
  shows "compose w h tW tH True cover =
           \<lparr>drawW = \<lceil>fmul (of_int tH) (srcAspect w h)\<rceil>, drawH = tH,
            dx = (tW - \<lceil>fmul (of_int tH) (srcAspect w h)\<rceil>) div 2, dy = 0\<rparr>"
    and "tW \<le> \<lceil>fmul (of_int tH) (srcAspect w h)\<rceil>"
proof -
  let ?s = "srcAspect w h"
  let ?dw = "\<lceil>fmul (of_int tH) ?s\<rceil>"
  note sb = srcAspect_bounds[OF s]
  have s0: "0 < ?s" using sb(1) by (rule less_le_trans[rotated]) simp
  show lo: "tW \<le> ?dw"
    by (rule ceiling_ge_half, rule fmul_ge_target[OF t(1,2,3)]) (use c in simp)
  have "of_int tH * ?s \<le> 8000 * 2 ^ 32"
    using t sb(2) s0 by (intro mult_mono) simp_all
  then have "of_int tH * ?s \<le> 2 ^ 45" by simp
  moreover have "0 < of_int tH * ?s" using t s0 by simp
  ultimately have hi: "?dw \<le> 2 ^ 45" unfolding fmul_def by (rule ceiling_le_pow45[rotated])
  have "\<bar>tW - ?dw\<bar> < 2 ^ 53" by (rule abs_diff_cover[OF lo hi]) (use t in simp)
  then have "\<lfloor>fdiv (fsub (of_int tW) (of_int ?dw)) 2\<rfloor> = (tW - ?dw) div 2"
    by (rule offset_exact)
  then show "compose w h tW tH True cover =
           \<lparr>drawW = ?dw, drawH = tH, dx = (tW - ?dw) div 2, dy = 0\<rparr>"
    using c by (simp add: compose_unfold)
qed

lemma cover_tall:
  assumes s: "0 < w" "0 < h" and t: "1 \<le> tW" "tW \<le> 8000" "1 \<le> tH" "tH \<le> 8000"
    and c: "\<not> dstAspect tW tH < srcAspect w h"
  shows "compose w h tW tH True cover =
           \<lparr>drawW = tW, drawH = \<lceil>fdiv (of_int tW) (srcAspect w h)\<rceil>, dx = 0,
            dy = (tH - \<lceil>fdiv (of_int tW) (srcAspect w h)\<rceil>) div 2\<rparr>"
    and "tH \<le> \<lceil>fdiv (of_int tW) (srcAspect w h)\<rceil>"
proof -
  let ?s = "srcAspect w h"
  let ?dh = "\<lceil>fdiv (of_int tW) ?s\<rceil>"
  note sb = srcAspect_bounds[OF s]
  have s0: "0 < ?s" using sb(1) by (rule less_le_trans[rotated]) simp
  show lo: "tH \<le> ?dh"
    by (rule ceiling_ge_half, rule fdiv_ge_target[OF t(1,3,4) s0]) (use c in simp)
  have "of_int tW / ?s \<le> 8000 / (1 / 2 ^ 32)"
    using t sb(1) s0 by (intro frac_le) simp_all
  then have "of_int tW / ?s \<le> 2 ^ 45" by simp
  moreover have "0 < of_int tW / ?s" using t s0 by simp
  ultimately have hi: "?dh \<le> 2 ^ 45" unfolding fdiv_def by (rule ceiling_le_pow45[rotated])
  have "\<bar>tH - ?dh\<bar> < 2 ^ 53" by (rule abs_diff_cover[OF lo hi]) (use t in simp)
  then have "\<lfloor>fdiv (fsub (of_int tH) (of_int ?dh)) 2\<rfloor> = (tH - ?dh) div 2"
    by (rule offset_exact)
  then show "compose w h tW tH True cover =
           \<lparr>drawW = tW, drawH = ?dh, dx = 0, dy = (tH - ?dh) div 2\<rparr>"
    using c by (simp add: compose_unfold)
qed

lemma contain_wide:
  assumes s: "0 < w" "0 < h" and t: "1 \<le> tW" "tW \<le> 8000" "1 \<le> tH" "tH \<le> 8000"
    and c: "dstAspect tW tH < srcAspect w h"
  shows "compose w h tW tH True contain =
           \<lparr>drawW = tW, drawH = \<lfloor>fdiv (of_int tW) (srcAspect w h)\<rfloor>, dx = 0,
            dy = (tH - \<lfloor>fdiv (of_int tW) (srcAspect w h)\<rfloor>) div 2\<rparr>"
    and "0 \<le> \<lfloor>fdiv (of_int tW) (srcAspect w h)\<rfloor>"
    and "\<lfloor>fdiv (of_int tW) (srcAspect w h)\<rfloor> \<le> tH"
proof -
  let ?s = "srcAspect w h"
  let ?dh = "\<lfloor>fdiv (of_int tW) ?s\<rfloor>"
  note sb = srcAspect_bounds[OF s]
  have s0: "0 < ?s" using sb(1) by (rule less_le_trans[rotated]) simp
  have "0 < fdiv (of_int tW) ?s" unfolding fdiv_def using t s0 by (intro fl_pos_pos) simp
  then show lo: "0 \<le> ?dh" by simp
  show hi: "?dh \<le> tH"
    by (rule floor_le_half, rule fdiv_le_target[OF t(1,3,4)]) (use c in simp)
  have "\<bar>tH - ?dh\<bar> < 2 ^ 53" by (rule abs_diff_contain[OF lo hi]) (use t in simp)
  then have "\<lfloor>fdiv (fsub (of_int tH) (of_int ?dh)) 2\<rfloor> = (tH - ?dh) div 2"
    by (rule offset_exact)
  then show "compose w h tW tH True contain =
           \<lparr>drawW = tW, drawH = ?dh, dx = 0, dy = (tH - ?dh) div 2\<rparr>"
    using c by (simp add: compose_unfold)
qed

lemma contain_tall:
  assumes s: "0 < w" "0 < h" and t: "1 \<le> tW" "tW \<le> 8000" "1 \<le> tH" "tH \<le> 8000"
    and c: "\<not> dstAspect tW tH < srcAspect w h"
  shows "compose w h tW tH True contain =
           \<lparr>drawW = \<lfloor>fmul (of_int tH) (srcAspect w h)\<rfloor>, drawH = tH,
            dx = (tW - \<lfloor>fmul (of_int tH) (srcAspect w h)\<rfloor>) div 2, dy = 0\<rparr>"
    and "0 \<le> \<lfloor>fmul (of_int tH) (srcAspect w h)\<rfloor>"
    and "\<lfloor>fmul (of_int tH) (srcAspect w h)\<rfloor> \<le> tW"
proof -
  let ?s = "srcAspect w h"
  let ?dw = "\<lfloor>fmul (of_int tH) ?s\<rfloor>"
  note sb = srcAspect_bounds[OF s]
  have s0: "0 < ?s" using sb(1) by (rule less_le_trans[rotated]) simp
  have "0 < fmul (of_int tH) ?s" unfolding fmul_def using t s0 by (intro fl_pos_pos) simp
  then show lo: "0 \<le> ?dw" by simp
  show hi: "?dw \<le> tW"
    by (rule floor_le_half, rule fmul_le_target[OF t(1,2,3) s0]) (use c in simp)
  have "\<bar>tW - ?dw\<bar> < 2 ^ 53" by (rule abs_diff_contain[OF lo hi]) (use t in simp)
  then have "\<lfloor>fdiv (fsub (of_int tW) (of_int ?dw)) 2\<rfloor> = (tW - ?dw) div 2"
    by (rule offset_exact)
  then show "compose w h tW tH True contain =
           \<lparr>drawW = ?dw, drawH = tH, dx = (tW - ?dw) div 2, dy = 0\<rparr>"
    using c by (simp add: compose_unfold)
qed

subsection \<open>The offsets in integer arithmetic\<close>

lemma floor_half_int: "\<lfloor>(of_int n :: rat) / 2\<rfloor> = n div 2"
  using floor_divide_of_int_eq[of n 2, where ?'a = rat] by simp

lemma floor_half_diff: "\<lfloor>(of_int a - of_int b :: rat) / 2\<rfloor> = (a - b) div 2"
  using floor_half_int[of "a - b"] by simp

subsection \<open>Worked inputs\<close>

text \<open>
  Scenarios A and B of the specification (source 1000 by 500, target 512 by 512), a source
  one pixel high, a source that already has the size of the target, and a source with
  twice the target's sides. The doubles are evaluated by rewriting with the code equations.
\<close>

lemma scenario_A:
  "compose 1000 500 512 512 True cover = \<lparr>drawW = 1024, drawH = 512, dx = - 256, dy = 0\<rparr>"
proof -
  have a: "fdiv 1000 500 = 2" by code_simp
  have b: "fdiv 512 512 = 1" by code_simp
  have c: "\<lceil>fmul 512 2\<rceil> = 1024" by code_simp
  have d: "\<lfloor>fdiv (fsub 512 1024) 2\<rfloor> = - 256" by code_simp
  show ?thesis by (simp add: compose_def Let_def a b c d)
qed

lemma scenario_B:
  "compose 1000 500 512 512 True contain = \<lparr>drawW = 512, drawH = 256, dx = 0, dy = 128\<rparr>"
proof -
  have a: "fdiv 1000 500 = 2" by code_simp
  have b: "fdiv 512 512 = 1" by code_simp
  have c: "\<lfloor>fdiv 512 2\<rfloor> = 256" by code_simp
  have d: "\<lfloor>fdiv (fsub 512 256) 2\<rfloor> = 128" by code_simp
  show ?thesis by (simp add: compose_def Let_def a b c d)
qed

lemma thin_source_contain:
  "compose 1000 1 512 512 True contain = \<lparr>drawW = 512, drawH = 0, dx = 0, dy = 256\<rparr>"
proof -
  have a: "fdiv 1000 1 = 1000" by code_simp
  have b: "fdiv 512 512 = 1" by code_simp
  have c: "\<lfloor>fdiv 512 1000\<rfloor> = 0" by code_simp
  have d: "\<lfloor>fdiv (fsub 512 0) 2\<rfloor> = 256" by code_simp
  show ?thesis by (simp add: compose_def Let_def a b c d)
qed

lemma same_size_cover:
  "compose 30 110 30 110 True cover = \<lparr>drawW = 30, drawH = 111, dx = 0, dy = - 1\<rparr>"
proof -
  have c: "\<lceil>fdiv 30 (fdiv 30 110)\<rceil> = 111" by code_simp
  have d: "\<lfloor>fdiv (fsub 110 111) 2\<rfloor> = - 1" by code_simp
  show ?thesis by (simp add: compose_def Let_def c d)
qed

lemma same_size_contain:
  "compose 30 110 30 110 True contain = \<lparr>drawW = 29, drawH = 110, dx = 0, dy = 0\<rparr>"
proof -
  have c: "\<lfloor>fmul 110 (fdiv 30 110)\<rfloor> = 29" by code_simp
  have d: "\<lfloor>fdiv (fsub 30 29) 2\<rfloor> = 0" by code_simp
  show ?thesis by (simp add: compose_def Let_def c d)
qed

lemma double_aspect:
  "compose 1000 500 512 256 True cover = \<lparr>drawW = 512, drawH = 256, dx = 0, dy = 0\<rparr>"
  "compose 1000 500 512 256 True contain = \<lparr>drawW = 512, drawH = 256, dx = 0, dy = 0\<rparr>"
  "srcAspect 1000 500 = dstAspect 512 256"
proof -
  have a: "fdiv 1000 500 = 2" by code_simp
  have b: "fdiv 512 256 = 2" by code_simp
  have c: "\<lceil>fdiv 512 2\<rceil> = 256" by code_simp
  have d: "\<lfloor>fdiv (fsub 256 256) 2\<rfloor> = 0" by code_simp
  have e: "\<lfloor>fmul 256 2\<rfloor> = 512" by code_simp
  have f: "\<lfloor>fdiv (fsub 512 512) 2\<rfloor> = 0" by code_simp
  show "compose 1000 500 512 256 True cover = \<lparr>drawW = 512, drawH = 256, dx = 0, dy = 0\<rparr>"
    by (simp add: compose_def Let_def a b c d)
  show "compose 1000 500 512 256 True contain = \<lparr>drawW = 512, drawH = 256, dx = 0, dy = 0\<rparr>"
    by (simp add: compose_def Let_def a b e f)
  show "srcAspect 1000 500 = dstAspect 512 256"
    by (simp add: srcAspect_def dstAspect_def a b)
qed

subsection \<open>Filtering and mapping with positions\<close>

lemma filter_enumerate_keep:
  assumes "\<And>i. k \<le> i \<Longrightarrow> i < k + length xs \<Longrightarrow> int i \<noteq> index"
  shows "map snd (filter (\<lambda>(i, _). int i \<noteq> index) (enumerate k xs)) = xs"
  using assms
proof (induction xs arbitrary: k)
  case Nil
  then show ?case by simp
next
  case (Cons x xs)
  have "int k \<noteq> index" using Cons.prems[of k] by simp
  moreover have "map snd (filter (\<lambda>(i, _). int i \<noteq> index) (enumerate (Suc k) xs)) = xs"
    by (rule Cons.IH) (use Cons.prems in simp)
  ultimately show ?case by simp
qed

lemma filter_enumerate_drop:
  assumes "n < length xs"
  shows "map snd (filter (\<lambda>(i, _). int i \<noteq> int (k + n)) (enumerate k xs))
         = take n xs @ drop (Suc n) xs"
  using assms
proof (induction xs arbitrary: k n)
  case Nil
  then show ?case by simp
next
  case (Cons x xs)
  show ?case
  proof (cases n)
    case 0
    have "map snd (filter (\<lambda>(i, _). int i \<noteq> int k) (enumerate (Suc k) xs)) = xs"
      by (rule filter_enumerate_keep) simp
    then show ?thesis using 0 by simp
  next
    case (Suc m)
    then have "m < length xs" using Cons.prems by simp
    from Cons.IH[OF this, of "Suc k"] show ?thesis using Suc by simp
  qed
qed

lemma map_enumerate_keep:
  assumes "\<And>i. k \<le> i \<Longrightarrow> i < k + length xs \<Longrightarrow> int i \<noteq> index"
  shows "map (\<lambda>(i, x). if int i = index then f x else x) (enumerate k xs) = xs"
  using assms
proof (induction xs arbitrary: k)
  case Nil
  then show ?case by simp
next
  case (Cons x xs)
  have "int k \<noteq> index" using Cons.prems[of k] by simp
  moreover have "map (\<lambda>(i, x). if int i = index then f x else x) (enumerate (Suc k) xs) = xs"
    by (rule Cons.IH) (use Cons.prems in simp)
  ultimately show ?case by simp
qed

lemma map_enumerate_update:
  assumes "n < length xs"
  shows "map (\<lambda>(i, x). if int i = int (k + n) then f x else x) (enumerate k xs)
         = xs[n := f (xs ! n)]"
  using assms
proof (induction xs arbitrary: k n)
  case Nil
  then show ?case by simp
next
  case (Cons x xs)
  show ?case
  proof (cases n)
    case 0
    have "map (\<lambda>(i, x). if int i = int k then f x else x) (enumerate (Suc k) xs) = xs"
      by (rule map_enumerate_keep) simp
    then show ?thesis using 0 by simp
  next
    case (Suc m)
    then have "m < length xs" using Cons.prems by simp
    from Cons.IH[OF this, of "Suc k"] show ?thesis using Suc by simp
  qed
qed

lemma validIndex_nat:
  assumes "validIndex i xs"
  shows "nat i < length xs" and "0 \<le> i" and "i = int (0 + nat i)"
  using assms unfolding validIndex_def by linarith+

lemma remove_valid:
  assumes "validIndex index xs"
  shows "map snd (filter (\<lambda>(i, _). int i \<noteq> index) (enumerate 0 xs))
         = take (nat index) xs @ drop (Suc (nat index)) xs"
proof -
  have "nat index < length xs" and "index = int (0 + nat index)"
    using validIndex_nat[OF assms] by blast+
  then show ?thesis using filter_enumerate_drop[of "nat index" xs 0] by simp
qed

lemma remove_invalid:
  assumes "\<not> validIndex index xs"
  shows "map snd (filter (\<lambda>(i, _). int i \<noteq> index) (enumerate 0 xs)) = xs"
  by (rule filter_enumerate_keep) (use assms in \<open>auto simp: validIndex_def\<close>)

lemma update_valid:
  assumes "validIndex index xs"
  shows "map (\<lambda>(i, x). if int i = index then f x else x) (enumerate 0 xs)
         = xs[nat index := f (xs ! nat index)]"
proof -
  have "nat index < length xs" and "index = int (0 + nat index)"
    using validIndex_nat[OF assms] by blast+
  then show ?thesis using map_enumerate_update[of "nat index" xs 0 f] by simp
qed

lemma update_invalid:
  assumes "\<not> validIndex index xs"
  shows "map (\<lambda>(i, x). if int i = index then f x else x) (enumerate 0 xs) = xs"
  by (rule map_enumerate_keep) (use assms in \<open>auto simp: validIndex_def\<close>)

subsection \<open>The rounded ratios against the exact ones\<close>

text \<open>
  Two different fractions \<open>targetW / targetH\<close> and \<open>srcW / srcH\<close>, with the target sides up
  to 8000 and the source sides below \<open>2\<^sup>3\<^sup>2\<close>, are more than two rounding errors apart, so
  the comparison of the rounded ratios decides as the comparison of the fractions does.
\<close>

lemma fl_upper: "0 < q \<Longrightarrow> fl q \<le> q + q / 2 ^ 53"
  using fl_err[of q] by linarith

lemma fl_lower: "0 < q \<Longrightarrow> q - q / 2 ^ 53 \<le> fl q"
  using fl_err[of q] by linarith

lemma fl_separates:
  fixes n m :: nat and a b :: int
  assumes n: "1 \<le> n" "n < 2 ^ 32" and m: "1 \<le> m" and a: "1 \<le> a" and b: "1 \<le> b" "b \<le> 8000"
    and lt: "(of_int a :: rat) / of_int b < of_nat n / of_nat m"
  shows "fl (of_int a / of_int b) < fl (of_nat n / of_nat m)"
proof -
  define p :: rat where "p = of_nat n / of_nat m"
  define q :: rat where "q = of_int a / of_int b"
  define D :: rat where "D = of_nat m * of_int b"
  have m0: "(0::rat) < of_nat m" and b0: "(0::rat) < of_int b" using m b by simp_all
  have D0: "0 < D" unfolding D_def using m0 b0 by simp
  have p0: "0 < p" unfolding p_def using n m0 by simp
  have q0: "0 < q" unfolding q_def using a b0 by simp
  have pD: "p * D = of_int (int n * b)" unfolding p_def D_def using m0 by simp
  have qD: "q * D = of_int (a * int m)" unfolding q_def D_def using b0 by simp
  have "q * D < p * D" using lt D0 unfolding p_def q_def by (simp only: mult_less_cancel_right_pos)
  then have "(of_int (a * int m) :: rat) < of_int (int n * b)" by (simp only: pD qD)
  then have "a * int m < int n * b" by (simp only: of_int_less_iff)
  then have "a * int m + 1 \<le> int n * b" by simp
  then have "(of_int (a * int m + 1) :: rat) \<le> of_int (int n * b)" by (simp only: of_int_le_iff)
  then have gap: "q * D + 1 \<le> p * D" by (simp add: pD qD)
  have "int n * b \<le> 2 ^ 32 * 8000"
    using n b by (intro mult_mono) simp_all
  then have "(of_int (int n * b) :: rat) \<le> of_int (2 ^ 32 * 8000)" by (simp only: of_int_le_iff)
  then have pDle: "p * D \<le> 2 ^ 32 * 8000" by (simp add: pD)
  have "q * D \<le> p * D" using gap by linarith
  then have "(q * D + p * D) / 2 ^ 53 \<le> (2 ^ 32 * 8000 + 2 ^ 32 * 8000) / 2 ^ 53"
    using pDle by (intro divide_right_mono) simp_all
  also have "\<dots> < 1" by simp
  finally have small: "(q * D + p * D) / 2 ^ 53 < 1" .
  have "(q + q / 2 ^ 53) * D < (p - p / 2 ^ 53) * D"
    using gap small by (simp add: algebra_simps add_divide_distrib)
  then have "q + q / 2 ^ 53 < p - p / 2 ^ 53"
    using D0 by (simp only: mult_less_cancel_right_pos)
  with fl_upper[OF q0] fl_lower[OF p0] have "fl q < fl p" by linarith
  then show ?thesis by (simp only: p_def q_def)
qed

lemma aspect_order:
  assumes "0 < w" and "0 < h" and "1 \<le> tW" and "1 \<le> tH" and "tH \<le> 8000"
  shows "dstAspect tW tH < srcAspect w h
         \<longleftrightarrow> (of_int tW :: rat) / of_int tH < of_nat (unat w) / of_nat (unat h)"
proof
  assume lt: "(of_int tW :: rat) / of_int tH < of_nat (unat w) / of_nat (unat h)"
  have n: "1 \<le> unat w" "unat w < 2 ^ 32" and m: "1 \<le> unat h"
    using assms(1,2) unsigned_less[of w, where ?'a = nat] by (simp_all add: word_less_nat_alt)
  show "dstAspect tW tH < srcAspect w h"
    unfolding dstAspect_def srcAspect_def fdiv_def
    by (rule fl_separates[OF n m assms(3,4,5) lt])
next
  assume lt: "dstAspect tW tH < srcAspect w h"
  show "(of_int tW :: rat) / of_int tH < of_nat (unat w) / of_nat (unat h)"
  proof (rule ccontr)
    assume "\<not> (of_int tW :: rat) / of_int tH < of_nat (unat w) / of_nat (unat h)"
    then have le: "(of_nat (unat w) :: rat) / of_nat (unat h) \<le> of_int tW / of_int tH" by simp
    have "(0::rat) < of_nat (unat w) / of_nat (unat h)"
      using img_side(1)[OF assms(1)] img_side(1)[OF assms(2)] by simp
    then have "fl (of_nat (unat w) / of_nat (unat h)) \<le> fl (of_int tW / of_int tH)"
      using le by (rule fl_mono_pos)
    with lt show False by (simp only: dstAspect_def srcAspect_def fdiv_def)
  qed
qed


subsection \<open>The rounded scaled side against the exact one\<close>

text \<open>
  The product \<open>targetH * srcAR\<close> and the quotient \<open>targetW / srcAR\<close> are rounded twice,
  once in the ratio and once in the operation; for values up to \<open>8000 * 2\<^sup>3\<^sup>2\<close> the two
  errors together stay below half a pixel, so \<open>ceil\<close> and \<open>floor\<close> of the rounded value
  are within one of \<open>ceil\<close> and \<open>floor\<close> of the exact value.
\<close>

lemma src_ratio:
  fixes w h :: "32 word"
  assumes "0 < w" and "0 < h"
  shows "(0::rat) < of_nat (unat w) / of_nat (unat h)"
    and "(of_nat (unat w) :: rat) / of_nat (unat h) \<le> 2 ^ 32"
proof -
  note W = img_side[OF assms(1)] and H = img_side[OF assms(2)]
  show "(0::rat) < of_nat (unat w) / of_nat (unat h)" using W(1) H(1) by simp
  have "(of_nat (unat w) :: rat) / of_nat (unat h) \<le> of_nat (unat w) / 1"
    using W(1) H(1) by (intro divide_left_mono) simp_all
  then show "(of_nat (unat w) :: rat) / of_nat (unat h) \<le> 2 ^ 32" using W(2) by simp
qed

lemma fmul_near:
  assumes "0 < w" and "0 < h" and "1 \<le> t" and "t \<le> 8000"
  shows "\<bar>fmul (of_int t) (srcAspect w h)
          - of_int t * ((of_nat (unat w) :: rat) / of_nat (unat h))\<bar> \<le> 1 / 2"
proof -
  define p :: rat where "p = of_nat (unat w) / of_nat (unat h)"
  define s where "s = srcAspect w h"
  define T :: rat where "T = of_int t"
  have T: "1 \<le> T" "T \<le> 8000" using assms(3,4) by (simp_all add: T_def)
  have p: "0 < p" "p \<le> 2 ^ 32" using src_ratio[OF assms(1,2)] by (simp_all add: p_def)
  have sp: "s = fl p" by (simp add: s_def p_def srcAspect_def fdiv_def)
  have s: "0 < s" "s \<le> 2 ^ 32"
    using srcAspect_bounds[OF assms(1,2)] by (simp_all add: s_def less_le_trans[of 0 "1 / 2 ^ 32"])
  have e1: "\<bar>s - p\<bar> \<le> p / 2 ^ 53" unfolding sp by (rule fl_err[OF p(1)])
  have x0: "0 < T * s" using T s by simp
  have xle: "T * s \<le> 8000 * 2 ^ 32" using T s by (intro mult_mono) simp_all
  have e2: "\<bar>fl (T * s) - T * s\<bar> \<le> T * s / 2 ^ 53" by (rule fl_err[OF x0])
  have "\<bar>T * s - T * p\<bar> = T * \<bar>s - p\<bar>"
    using T by (simp add: abs_mult flip: right_diff_distrib)
  also have "\<dots> \<le> 8000 * (p / 2 ^ 53)" using T e1 by (intro mult_mono) simp_all
  also have "\<dots> \<le> 8000 * (2 ^ 32 / 2 ^ 53)"
    using p by (intro mult_left_mono divide_right_mono) simp_all
  finally have e3: "\<bar>T * s - T * p\<bar> \<le> 8000 * (2 ^ 32 / 2 ^ 53)" .
  have "T * s / 2 ^ 53 \<le> 8000 * 2 ^ 32 / 2 ^ 53" using xle by (intro divide_right_mono) simp_all
  with e2 have e4: "\<bar>fl (T * s) - T * s\<bar> \<le> 8000 * 2 ^ 32 / 2 ^ 53" by linarith
  have "\<bar>fl (T * s) - T * p\<bar> \<le> 8000 * 2 ^ 32 / 2 ^ 53 + 8000 * (2 ^ 32 / 2 ^ 53)"
    using e3 e4 by linarith
  also have "\<dots> \<le> 1 / 2" by simp
  finally show ?thesis by (simp only: fmul_def T_def s_def p_def)
qed

lemma fdiv_near:
  assumes "0 < w" and "0 < h" and "1 \<le> t" and "t \<le> 8000"
  shows "\<bar>fdiv (of_int t) (srcAspect w h)
          - of_int t / ((of_nat (unat w) :: rat) / of_nat (unat h))\<bar> \<le> 1 / 2"
proof -
  define p :: rat where "p = of_nat (unat w) / of_nat (unat h)"
  define s where "s = srcAspect w h"
  define T :: rat where "T = of_int t"
  have T: "1 \<le> T" "T \<le> 8000" using assms(3,4) by (simp_all add: T_def)
  have p: "0 < p" using src_ratio[OF assms(1,2)] by (simp_all add: p_def)
  have sp: "s = fl p" by (simp add: s_def p_def srcAspect_def fdiv_def)
  have slo: "1 / 2 ^ 32 \<le> s" using srcAspect_bounds(1)[OF assms(1,2)] by (simp add: s_def)
  have s: "0 < s" using slo by (rule less_le_trans[rotated]) simp
  have e1: "\<bar>s - p\<bar> \<le> p / 2 ^ 53" unfolding sp by (rule fl_err[OF p(1)])
  have y0: "0 < T / s" using T s by simp
  have "T / s \<le> 8000 / (1 / 2 ^ 32)" using T slo s by (intro frac_le) simp_all
  then have yle: "T / s \<le> 8000 * 2 ^ 32" by simp
  have e2: "\<bar>fl (T / s) - T / s\<bar> \<le> T / s / 2 ^ 53" by (rule fl_err[OF y0])
  have "T / s - T / p = T / s * ((p - s) / p)" using s p by (simp add: field_simps)
  then have "\<bar>T / s - T / p\<bar> = \<bar>T / s\<bar> * (\<bar>p - s\<bar> / \<bar>p\<bar>)"
    by (simp only: abs_mult abs_divide)
  also have "\<dots> = T / s * (\<bar>s - p\<bar> / p)"
    using y0 p by (simp only: abs_of_pos abs_minus_commute)
  also have "\<dots> \<le> T / s * (p / 2 ^ 53 / p)"
    using e1 y0 p by (intro mult_left_mono divide_right_mono) simp_all
  also have "\<dots> = T / s / 2 ^ 53" using p by simp
  finally have e3: "\<bar>T / s - T / p\<bar> \<le> T / s / 2 ^ 53" .
  have "T / s / 2 ^ 53 \<le> 8000 * 2 ^ 32 / 2 ^ 53" using yle by (intro divide_right_mono) simp_all
  with e2 e3 have "\<bar>fl (T / s) - T / p\<bar> \<le> 8000 * 2 ^ 32 / 2 ^ 53 + 8000 * 2 ^ 32 / 2 ^ 53"
    by linarith
  also have "\<dots> \<le> 1 / 2" by simp
  finally show ?thesis by (simp only: fdiv_def T_def s_def p_def)
qed

lemma ceiling_near: "\<bar>x - y\<bar> \<le> 1 / 2 \<Longrightarrow> \<bar>\<lceil>x::rat\<rceil> - \<lceil>y\<rceil>\<bar> \<le> 1"
  by linarith

lemma floor_near: "\<bar>x - y\<bar> \<le> 1 / 2 \<Longrightarrow> \<bar>\<lfloor>x::rat\<rfloor> - \<lfloor>y\<rfloor>\<bar> \<le> 1"
  by linarith

lemma half_near: "\<bar>a - b\<bar> \<le> 1 \<Longrightarrow> \<bar>(t - a) div 2 - (t - b) div 2\<bar> \<le> (1::int)"
  by linarith


lemma near_sides:
  assumes "0 < w" and "0 < h" and "1 \<le> tW" and "tW \<le> 8000" and "1 \<le> tH" and "tH \<le> 8000"
  shows "\<bar>\<lceil>fmul (of_int tH) (srcAspect w h)\<rceil>
          - \<lceil>of_int tH * ((of_nat (unat w) :: rat) / of_nat (unat h))\<rceil>\<bar> \<le> 1"
    and "\<bar>\<lfloor>fmul (of_int tH) (srcAspect w h)\<rfloor>
          - \<lfloor>of_int tH * ((of_nat (unat w) :: rat) / of_nat (unat h))\<rfloor>\<bar> \<le> 1"
    and "\<bar>\<lceil>fdiv (of_int tW) (srcAspect w h)\<rceil>
          - \<lceil>of_int tW / ((of_nat (unat w) :: rat) / of_nat (unat h))\<rceil>\<bar> \<le> 1"
    and "\<bar>\<lfloor>fdiv (of_int tW) (srcAspect w h)\<rfloor>
          - \<lfloor>of_int tW / ((of_nat (unat w) :: rat) / of_nat (unat h))\<rfloor>\<bar> \<le> 1"
  using fmul_near[OF assms(1,2,5,6)] fdiv_near[OF assms(1,2,3,4)]
  by (blast intro: ceiling_near floor_near)+

lemma spec_geometry_unfold:
  "spec_geometry w h tW tH fit =
     (if fit = cover
      then if (of_int tW :: rat) / of_int tH < of_nat (unat w) / of_nat (unat h)
        then \<lparr>drawW = \<lceil>of_int tH * ((of_nat (unat w) :: rat) / of_nat (unat h))\<rceil>, drawH = tH,
              dx = (tW - \<lceil>of_int tH * ((of_nat (unat w) :: rat) / of_nat (unat h))\<rceil>) div 2,
              dy = 0\<rparr>
        else \<lparr>drawW = tW,
              drawH = \<lceil>of_int tW / ((of_nat (unat w) :: rat) / of_nat (unat h))\<rceil>, dx = 0,
              dy = (tH - \<lceil>of_int tW / ((of_nat (unat w) :: rat) / of_nat (unat h))\<rceil>) div 2\<rparr>
      else if (of_int tW :: rat) / of_int tH < of_nat (unat w) / of_nat (unat h)
        then \<lparr>drawW = tW,
              drawH = \<lfloor>of_int tW / ((of_nat (unat w) :: rat) / of_nat (unat h))\<rfloor>, dx = 0,
              dy = (tH - \<lfloor>of_int tW / ((of_nat (unat w) :: rat) / of_nat (unat h))\<rfloor>) div 2\<rparr>
        else \<lparr>drawW = \<lfloor>of_int tH * ((of_nat (unat w) :: rat) / of_nat (unat h))\<rfloor>, drawH = tH,
              dx = (tW - \<lfloor>of_int tH * ((of_nat (unat w) :: rat) / of_nat (unat h))\<rfloor>) div 2,
              dy = 0\<rparr>)"
  by (cases fit) (simp_all only: spec_geometry_def Let_def floor_half_diff FitMode.case
      FitMode.distinct if_True if_False refl)

lemma near_geometry:
  assumes "0 < w" and "0 < h" and "1 \<le> tW" and "tW \<le> 8000" and "1 \<le> tH" and "tH \<le> 8000"
  shows "\<bar>drawW (compose w h tW tH True fit) - drawW (spec_geometry w h tW tH fit)\<bar> \<le> 1
       \<and> \<bar>drawH (compose w h tW tH True fit) - drawH (spec_geometry w h tW tH fit)\<bar> \<le> 1
       \<and> \<bar>dx (compose w h tW tH True fit) - dx (spec_geometry w h tW tH fit)\<bar> \<le> 1
       \<and> \<bar>dy (compose w h tW tH True fit) - dy (spec_geometry w h tW tH fit)\<bar> \<le> 1
       \<and> (drawW (compose w h tW tH True fit) = drawW (spec_geometry w h tW tH fit)
          \<or> drawH (compose w h tW tH True fit) = drawH (spec_geometry w h tW tH fit))"
proof -
  note ns = near_sides[OF assms]
  note ord = aspect_order[OF assms(1,2,3,5,6)]
  show ?thesis
  proof (cases "dstAspect tW tH < srcAspect w h")
    case True
    then have E: "(of_int tW :: rat) / of_int tH < of_nat (unat w) / of_nat (unat h)"
      using ord by blast
    show ?thesis
    proof (cases fit)
      case cover
      show ?thesis
        unfolding cover cover_wide(1)[OF assms True]
        using half_near[OF ns(1), of tW] ns(1)
        by (simp only: spec_geometry_unfold E if_True Geometry.select_convs) simp
    next
      case contain
      show ?thesis
        unfolding contain contain_wide(1)[OF assms True]
        using half_near[OF ns(4), of tH] ns(4)
        by (simp only: spec_geometry_unfold E if_True if_False FitMode.distinct
            Geometry.select_convs) simp
    qed
  next
    case False
    then have E: "\<not> (of_int tW :: rat) / of_int tH < of_nat (unat w) / of_nat (unat h)"
      using ord by blast
    show ?thesis
    proof (cases fit)
      case cover
      show ?thesis
        unfolding cover cover_tall(1)[OF assms False]
        using half_near[OF ns(3), of tH] ns(3)
        by (simp only: spec_geometry_unfold E if_True if_False Geometry.select_convs) simp
    next
      case contain
      show ?thesis
        unfolding contain contain_tall(1)[OF assms False]
        using half_near[OF ns(2), of tW] ns(2)
        by (simp only: spec_geometry_unfold E if_True if_False FitMode.distinct
            Geometry.select_convs) simp
    qed
  qed
qed


text \<open>
  A source 1 by 49 with the target 1 by 2 under cover, in the program and in the plain
  formulas, and scenario A in the plain formulas.
\<close>

lemma thin_tall_cover:
  "compose 1 49 1 2 True cover = \<lparr>drawW = 1, drawH = 50, dx = 0, dy = - 24\<rparr>"
proof -
  have a: "fdiv 1 49 = 5882252574524729 / 288230376151711744" by code_simp
  have b: "fdiv 1 2 = 1 / 2" by code_simp
  have c: "\<lceil>fdiv 1 (5882252574524729 / 288230376151711744)\<rceil> = 50" by code_simp
  have d: "\<lfloor>fdiv (fsub 2 50) 2\<rfloor> = - 24" by code_simp
  show ?thesis by (simp add: compose_def Let_def a b c d)
qed

lemma thin_tall_spec:
  "spec_geometry 1 49 1 2 cover = \<lparr>drawW = 1, drawH = 49, dx = 0, dy = - 24\<rparr>"
  by (simp add: spec_geometry_unfold)

lemma scenario_A_spec:
  "spec_geometry 1000 500 512 512 cover = \<lparr>drawW = 1024, drawH = 512, dx = - 256, dy = 0\<rparr>"
  by (simp add: spec_geometry_unfold)

subsection \<open>The range of the clamped sides\<close>

lemma clampDim_range: "1 \<le> clampDim v \<and> clampDim v \<le> 8000"
  by (simp add: clampDim_def)

lemma onload_compose:
  "onload spec w h maintainAspect fit =
     compose w h (clampDim (width spec)) (clampDim (height spec)) maintainAspect fit"
  by (simp add: onload_def)

section \<open>The compositor\<close>

text \<open>
  C1, as stated: the rectangle computed with \<open>maintainAspect\<close> set is exactly the one of
  the specification's branch formulas. It fails under cover for a source 1 by 49 and the
  target 1 by 2. The ratio 1/49 is below 1/2, so the else branch runs; the formula gives
  \<open>drawHeight = ceil(1 / (1/49)) = 49\<close>, while the program divides 1 by the double nearest
  to 1/49, which is below 1/49, gets a double above 49 and draws the height 50.
\<close>

theorem compose_not_exact:
  "(0::32 word) < 1 \<and> (0::32 word) < 49 \<and> (1::int) \<le> 1 \<and> (1::int) \<le> 8000
   \<and> (1::int) \<le> 2 \<and> (2::int) \<le> 8000
   \<and> compose 1 49 1 2 True cover = \<lparr>drawW = 1, drawH = 50, dx = 0, dy = - 24\<rparr>
   \<and> spec_geometry 1 49 1 2 cover = \<lparr>drawW = 1, drawH = 49, dx = 0, dy = - 24\<rparr>
   \<and> compose 1 49 1 2 True cover \<noteq> spec_geometry 1 49 1 2 cover"
  by (simp add: thin_tall_cover thin_tall_spec)

text \<open>
  C1, amended. For a source with positive sides and a target with both sides in 1..8000,
  with \<open>maintainAspect\<close> set: the program takes the branch that the strict comparison
  \<open>srcAspect > dstAspect\<close> of the exact ratios selects, so equal ratios take the else branch
  under both policies; in that branch the side matched to the target and the zero offset
  are those of the formulas; the scaled side is \<open>ceil\<close> under cover and \<open>floor\<close> under
  contain of the product \<open>target.height * srcAspect\<close> or the quotient \<open>target.width /
  srcAspect\<close> computed in double precision from the double nearest to the source's ratio;
  the other offset is \<open>floor((target side - drawn side) / 2)\<close> of the side drawn. Every
  component is within one of the value of the plain formulas, and one of the two sides is
  equal to it.
\<close>

theorem compose_rounded_formulas:
  assumes "0 < w" and "0 < h" and "1 \<le> tW" and "tW \<le> 8000" and "1 \<le> tH" and "tH \<le> 8000"
  shows "(dstAspect tW tH < srcAspect w h
          \<longleftrightarrow> (of_int tW :: rat) / of_int tH < of_nat (unat w) / of_nat (unat h))
       \<and> compose w h tW tH True cover =
           (if (of_int tW :: rat) / of_int tH < of_nat (unat w) / of_nat (unat h)
            then \<lparr>drawW = \<lceil>fmul (of_int tH) (srcAspect w h)\<rceil>, drawH = tH,
                  dx = \<lfloor>(of_int tW - of_int \<lceil>fmul (of_int tH) (srcAspect w h)\<rceil> :: rat) / 2\<rfloor>,
                  dy = 0\<rparr>
            else \<lparr>drawW = tW, drawH = \<lceil>fdiv (of_int tW) (srcAspect w h)\<rceil>, dx = 0,
                  dy = \<lfloor>(of_int tH - of_int \<lceil>fdiv (of_int tW) (srcAspect w h)\<rceil> :: rat) / 2\<rfloor>\<rparr>)
       \<and> compose w h tW tH True contain =
           (if (of_int tW :: rat) / of_int tH < of_nat (unat w) / of_nat (unat h)
            then \<lparr>drawW = tW, drawH = \<lfloor>fdiv (of_int tW) (srcAspect w h)\<rfloor>, dx = 0,
                  dy = \<lfloor>(of_int tH - of_int \<lfloor>fdiv (of_int tW) (srcAspect w h)\<rfloor> :: rat) / 2\<rfloor>\<rparr>
            else \<lparr>drawW = \<lfloor>fmul (of_int tH) (srcAspect w h)\<rfloor>, drawH = tH,
                  dx = \<lfloor>(of_int tW - of_int \<lfloor>fmul (of_int tH) (srcAspect w h)\<rfloor> :: rat) / 2\<rfloor>,
                  dy = 0\<rparr>)
       \<and> \<bar>drawW (compose w h tW tH True fit) - drawW (spec_geometry w h tW tH fit)\<bar> \<le> 1
       \<and> \<bar>drawH (compose w h tW tH True fit) - drawH (spec_geometry w h tW tH fit)\<bar> \<le> 1
       \<and> \<bar>dx (compose w h tW tH True fit) - dx (spec_geometry w h tW tH fit)\<bar> \<le> 1
       \<and> \<bar>dy (compose w h tW tH True fit) - dy (spec_geometry w h tW tH fit)\<bar> \<le> 1
       \<and> (drawW (compose w h tW tH True fit) = drawW (spec_geometry w h tW tH fit)
          \<or> drawH (compose w h tW tH True fit) = drawH (spec_geometry w h tW tH fit))"
proof -
  note ord = aspect_order[OF assms(1,2,3,5,6)]
  have cov: "compose w h tW tH True cover =
           (if (of_int tW :: rat) / of_int tH < of_nat (unat w) / of_nat (unat h)
            then \<lparr>drawW = \<lceil>fmul (of_int tH) (srcAspect w h)\<rceil>, drawH = tH,
                  dx = \<lfloor>(of_int tW - of_int \<lceil>fmul (of_int tH) (srcAspect w h)\<rceil> :: rat) / 2\<rfloor>,
                  dy = 0\<rparr>
            else \<lparr>drawW = tW, drawH = \<lceil>fdiv (of_int tW) (srcAspect w h)\<rceil>, dx = 0,
                  dy = \<lfloor>(of_int tH - of_int \<lceil>fdiv (of_int tW) (srcAspect w h)\<rceil> :: rat) / 2\<rfloor>\<rparr>)"
  proof (cases "dstAspect tW tH < srcAspect w h")
    case True
    with ord cover_wide(1)[OF assms True] show ?thesis by (simp only: floor_half_diff if_True)
  next
    case False
    with ord cover_tall(1)[OF assms False] show ?thesis by (simp only: floor_half_diff if_False)
  qed
  have con: "compose w h tW tH True contain =
           (if (of_int tW :: rat) / of_int tH < of_nat (unat w) / of_nat (unat h)
            then \<lparr>drawW = tW, drawH = \<lfloor>fdiv (of_int tW) (srcAspect w h)\<rfloor>, dx = 0,
                  dy = \<lfloor>(of_int tH - of_int \<lfloor>fdiv (of_int tW) (srcAspect w h)\<rfloor> :: rat) / 2\<rfloor>\<rparr>
            else \<lparr>drawW = \<lfloor>fmul (of_int tH) (srcAspect w h)\<rfloor>, drawH = tH,
                  dx = \<lfloor>(of_int tW - of_int \<lfloor>fmul (of_int tH) (srcAspect w h)\<rfloor> :: rat) / 2\<rfloor>,
                  dy = 0\<rparr>)"
  proof (cases "dstAspect tW tH < srcAspect w h")
    case True
    with ord contain_wide(1)[OF assms True] show ?thesis by (simp only: floor_half_diff if_True)
  next
    case False
    with ord contain_tall(1)[OF assms False] show ?thesis by (simp only: floor_half_diff if_False)
  qed
  from ord cov con near_geometry[OF assms, of fit] show ?thesis by (intro conjI) blast+
qed

text \<open>
  The amended statement at scenario A, where the program and the plain formulas agree, and
  at the source 1 by 49 with the target 1 by 2, where the heights differ by one.
\<close>

theorem compose_rounded_formulas_witness:
  "(0::32 word) < 1000 \<and> (0::32 word) < 500 \<and> (1::int) \<le> 512 \<and> (512::int) \<le> 8000
   \<and> (0::32 word) < 1 \<and> (0::32 word) < 49 \<and> (1::int) \<le> 1 \<and> (1::int) \<le> 2
   \<and> dstAspect 512 512 < srcAspect 1000 500
   \<and> compose 1000 500 512 512 True cover = \<lparr>drawW = 1024, drawH = 512, dx = - 256, dy = 0\<rparr>
   \<and> spec_geometry 1000 500 512 512 cover = \<lparr>drawW = 1024, drawH = 512, dx = - 256, dy = 0\<rparr>
   \<and> \<not> dstAspect 1 2 < srcAspect 1 49
   \<and> drawW (compose 1 49 1 2 True cover) = drawW (spec_geometry 1 49 1 2 cover)
   \<and> \<bar>drawH (compose 1 49 1 2 True cover) - drawH (spec_geometry 1 49 1 2 cover)\<bar> = 1"
proof -
  have 1: "dstAspect 512 512 < srcAspect 1000 500"
    using compose_rounded_formulas[of 1000 500 512 512 cover] by simp
  have 2: "\<not> dstAspect 1 2 < srcAspect 1 49"
    using compose_rounded_formulas[of 1 49 1 2 cover] by simp
  show ?thesis
    by (simp add: 1 2 scenario_A scenario_A_spec thin_tall_cover thin_tall_spec)
qed

text \<open>
  C2. Under contain the rectangle lies inside the target: both offsets are at least 0,
  \<open>offsetX + drawWidth \<le> target.width\<close>, \<open>offsetY + drawHeight \<le> target.height\<close>, and
  one of the two sides is exactly the target's.
\<close>

theorem contain_fits:
  assumes "0 < w" and "0 < h" and "1 \<le> tW" and "tW \<le> 8000" and "1 \<le> tH" and "tH \<le> 8000"
  shows "0 \<le> dx (compose w h tW tH True contain)
       \<and> 0 \<le> dy (compose w h tW tH True contain)
       \<and> dx (compose w h tW tH True contain) + drawW (compose w h tW tH True contain) \<le> tW
       \<and> dy (compose w h tW tH True contain) + drawH (compose w h tW tH True contain) \<le> tH
       \<and> (drawW (compose w h tW tH True contain) = tW
          \<or> drawH (compose w h tW tH True contain) = tH)"
proof (cases "dstAspect tW tH < srcAspect w h")
  case True
  note b = contain_wide[OF assms True]
  show ?thesis unfolding b(1) using b(2,3) assms by simp
next
  case False
  note b = contain_tall[OF assms False]
  show ?thesis unfolding b(1) using b(2,3) assms by simp
qed

text \<open>The theorem at scenario B: source 1000 by 500, target 512 by 512, contain.\<close>

theorem contain_fits_witness:
  "(0::32 word) < 1000 \<and> (0::32 word) < 500 \<and> (1::int) \<le> 512 \<and> (512::int) \<le> 8000
   \<and> compose 1000 500 512 512 True contain = \<lparr>drawW = 512, drawH = 256, dx = 0, dy = 128\<rparr>
   \<and> 0 \<le> dy (compose 1000 500 512 512 True contain)
   \<and> dy (compose 1000 500 512 512 True contain)
       + drawH (compose 1000 500 512 512 True contain) \<le> 512
   \<and> drawW (compose 1000 500 512 512 True contain) = 512"
  using contain_fits[of 1000 500 512 512] scenario_B by simp

text \<open>
  C3. Under cover the rectangle covers the target and leaves no empty band:
  \<open>drawWidth \<ge> target.width\<close> and \<open>drawHeight \<ge> target.height\<close>, one of them with
  equality, and the pixels of the rectangle \<open>[offsetX, offsetX + drawWidth) \<times> [offsetY,
  offsetY + drawHeight)\<close> that fall inside the target are all the pixels of the target.
\<close>

theorem cover_covers:
  assumes "0 < w" and "0 < h" and "1 \<le> tW" and "tW \<le> 8000" and "1 \<le> tH" and "tH \<le> 8000"
  shows "tW \<le> drawW (compose w h tW tH True cover)
       \<and> tH \<le> drawH (compose w h tW tH True cover)
       \<and> (drawW (compose w h tW tH True cover) = tW
          \<or> drawH (compose w h tW tH True cover) = tH)
       \<and> dx (compose w h tW tH True cover) \<le> 0
       \<and> dy (compose w h tW tH True cover) \<le> 0
       \<and> tW \<le> dx (compose w h tW tH True cover) + drawW (compose w h tW tH True cover)
       \<and> tH \<le> dy (compose w h tW tH True cover) + drawH (compose w h tW tH True cover)
       \<and> ({dx (compose w h tW tH True cover) ..<
             dx (compose w h tW tH True cover) + drawW (compose w h tW tH True cover)}
            \<times> {dy (compose w h tW tH True cover) ..<
                dy (compose w h tW tH True cover) + drawH (compose w h tW tH True cover)})
           \<inter> ({0 ..< tW} \<times> {0 ..< tH})
          = {0 ..< tW} \<times> {0 ..< tH}"
proof (cases "dstAspect tW tH < srcAspect w h")
  case True
  note b = cover_wide[OF assms True]
  have 1: "(tW - \<lceil>fmul (of_int tH) (srcAspect w h)\<rceil>) div 2 \<le> 0" using b(2) by simp
  have 2: "tW \<le> (tW - \<lceil>fmul (of_int tH) (srcAspect w h)\<rceil>) div 2
             + \<lceil>fmul (of_int tH) (srcAspect w h)\<rceil>" using b(2) by linarith
  show ?thesis unfolding b(1) using b(2) 1 2 assms by auto
next
  case False
  note b = cover_tall[OF assms False]
  have 1: "(tH - \<lceil>fdiv (of_int tW) (srcAspect w h)\<rceil>) div 2 \<le> 0" using b(2) by simp
  have 2: "tH \<le> (tH - \<lceil>fdiv (of_int tW) (srcAspect w h)\<rceil>) div 2
             + \<lceil>fdiv (of_int tW) (srcAspect w h)\<rceil>" using b(2) by linarith
  show ?thesis unfolding b(1) using b(2) 1 2 assms by auto
qed

text \<open>The theorem at scenario A: the rectangle is 1024 by 512 at \<open>(-256, 0)\<close>.\<close>

theorem cover_covers_witness:
  "(0::32 word) < 1000 \<and> (0::32 word) < 500 \<and> (1::int) \<le> 512 \<and> (512::int) \<le> 8000
   \<and> compose 1000 500 512 512 True cover = \<lparr>drawW = 1024, drawH = 512, dx = - 256, dy = 0\<rparr>
   \<and> 512 \<le> drawW (compose 1000 500 512 512 True cover)
   \<and> dx (compose 1000 500 512 512 True cover) \<le> 0
   \<and> 512 \<le> dx (compose 1000 500 512 512 True cover)
             + drawW (compose 1000 500 512 512 True cover)
   \<and> drawH (compose 1000 500 512 512 True cover) = 512"
  using cover_covers[of 1000 500 512 512] scenario_A by simp

text \<open>
  C4. With \<open>maintainAspect\<close> unset the fit policy is ignored and the rectangle is the whole
  target at the origin: \<open>drawWidth = target.width\<close>, \<open>drawHeight = target.height\<close>,
  \<open>offsetX = 0\<close>, \<open>offsetY = 0\<close>, for every source and every target.
\<close>

theorem stretch_fills_target:
  "compose w h tW tH False fit = \<lparr>drawW = tW, drawH = tH, dx = 0, dy = 0\<rparr>"
  by (simp add: compose_def)

text \<open>
  C5, as stated: under both policies \<open>drawWidth\<close> and \<open>drawHeight\<close> are strictly positive.
  It fails under contain for a source 1000 wide and 1 high with the target 512 by 512:
  \<open>srcAR = 1000\<close>, \<open>dstAR = 1\<close>, and \<open>drawH = floor(512 / 1000) = 0\<close>.
\<close>

theorem contain_zero_height:
  "(0::32 word) < 1000 \<and> (0::32 word) < 1 \<and> (1::int) \<le> 512 \<and> (512::int) \<le> 8000
   \<and> \<not> 0 < drawH (compose 1000 1 512 512 True contain)"
  by (simp add: thin_source_contain)

text \<open>
  C5, amended. Under cover \<open>drawWidth\<close> and \<open>drawHeight\<close> are strictly positive; under
  contain both are at least 0 and one of them is strictly positive.
\<close>

theorem draw_sides:
  assumes "0 < w" and "0 < h" and "1 \<le> tW" and "tW \<le> 8000" and "1 \<le> tH" and "tH \<le> 8000"
  shows "0 < drawW (compose w h tW tH True cover) \<and> 0 < drawH (compose w h tW tH True cover)
       \<and> 0 \<le> drawW (compose w h tW tH True contain)
       \<and> 0 \<le> drawH (compose w h tW tH True contain)
       \<and> (0 < drawW (compose w h tW tH True contain)
          \<or> 0 < drawH (compose w h tW tH True contain))"
proof (cases "dstAspect tW tH < srcAspect w h")
  case True
  note b = cover_wide[OF assms True] and c = contain_wide[OF assms True]
  have "drawW (compose w h tW tH True cover) = \<lceil>fmul (of_int tH) (srcAspect w h)\<rceil>"
    and "drawH (compose w h tW tH True cover) = tH"
    and "drawW (compose w h tW tH True contain) = tW"
    and "drawH (compose w h tW tH True contain) = \<lfloor>fdiv (of_int tW) (srcAspect w h)\<rfloor>"
    by (simp_all only: b(1) c(1) Geometry.select_convs)
  then show ?thesis using b(2) c(2) assms(3,5) by linarith
next
  case False
  note b = cover_tall[OF assms False] and c = contain_tall[OF assms False]
  have "drawW (compose w h tW tH True cover) = tW"
    and "drawH (compose w h tW tH True cover) = \<lceil>fdiv (of_int tW) (srcAspect w h)\<rceil>"
    and "drawW (compose w h tW tH True contain) = \<lfloor>fmul (of_int tH) (srcAspect w h)\<rfloor>"
    and "drawH (compose w h tW tH True contain) = tH"
    by (simp_all only: b(1) c(1) Geometry.select_convs)
  then show ?thesis using b(2) c(2) assms(3,5) by linarith
qed

text \<open>The amended statement at the source 1000 by 1, where the height under contain is 0.\<close>

theorem draw_sides_witness:
  "(0::32 word) < 1000 \<and> (0::32 word) < 1 \<and> (1::int) \<le> 512 \<and> (512::int) \<le> 8000
   \<and> compose 1000 1 512 512 True contain = \<lparr>drawW = 512, drawH = 0, dx = 0, dy = 256\<rparr>
   \<and> 0 < drawW (compose 1000 1 512 512 True cover)
   \<and> 0 < drawH (compose 1000 1 512 512 True cover)
   \<and> 0 \<le> drawH (compose 1000 1 512 512 True contain)
   \<and> 0 < drawW (compose 1000 1 512 512 True contain)"
  using draw_sides[of 1000 1 512 512] thin_source_contain by simp

text \<open>
  C6, as stated: cover and contain return the same rectangle whenever
  \<open>source.width / source.height\<close> equals \<open>target.width / target.height\<close>. It fails for a
  source 30 by 110 and the target 30 by 110. The ratio is the double nearest to 3/11, which
  is below 3/11; \<open>30 / srcAR\<close> rounds to a double above 110, so cover draws 30 by 111 at
  \<open>(0, -1)\<close>; \<open>110 * srcAR\<close> rounds to a double below 30, so contain draws 29 by 110 at
  \<open>(0, 0)\<close>.
\<close>

theorem equal_aspect_differs:
  "(0::32 word) < 30 \<and> (0::32 word) < 110 \<and> (1::int) \<le> 30 \<and> (110::int) \<le> 8000
   \<and> (of_nat (unat (30::32 word)) :: rat) / of_nat (unat (110::32 word))
       = of_int 30 / of_int 110
   \<and> srcAspect 30 110 = dstAspect 30 110
   \<and> compose 30 110 30 110 True cover = \<lparr>drawW = 30, drawH = 111, dx = 0, dy = - 1\<rparr>
   \<and> compose 30 110 30 110 True contain = \<lparr>drawW = 29, drawH = 110, dx = 0, dy = 0\<rparr>
   \<and> compose 30 110 30 110 True cover \<noteq> compose 30 110 30 110 True contain"
  by (simp add: same_size_cover same_size_contain srcAspect_def dstAspect_def)

lemma same_fraction_same_ratio:
  assumes "(of_nat (unat w) :: rat) / of_nat (unat h) = of_int tW / of_int tH"
  shows "srcAspect w h = dstAspect tW tH"
  using assms by (simp only: srcAspect_def dstAspect_def fdiv_def)

text \<open>
  C6, amended. When the two ratios are equal as doubles, which they are when they are equal
  as fractions, cover returns the target's width with a
  height that is the target's or one more, contain returns the target's height with a
  width that is the target's or one less, both at offset 0 except for cover's \<open>offsetY\<close>,
  and the two rectangles are the same exactly when \<open>ceil(target.width / srcAspect) =
  target.height\<close> and \<open>floor(target.height * srcAspect) = target.width\<close>.
\<close>

theorem equal_aspect:
  assumes "0 < w" and "0 < h" and "1 \<le> tW" and "tW \<le> 8000" and "1 \<le> tH" and "tH \<le> 8000"
    and eq: "srcAspect w h = dstAspect tW tH"
  shows "compose w h tW tH True cover =
           \<lparr>drawW = tW, drawH = \<lceil>fdiv (of_int tW) (srcAspect w h)\<rceil>, dx = 0,
            dy = (tH - \<lceil>fdiv (of_int tW) (srcAspect w h)\<rceil>) div 2\<rparr>
       \<and> compose w h tW tH True contain =
           \<lparr>drawW = \<lfloor>fmul (of_int tH) (srcAspect w h)\<rfloor>, drawH = tH, dx = 0, dy = 0\<rparr>
       \<and> \<lceil>fdiv (of_int tW) (srcAspect w h)\<rceil> \<in> {tH, tH + 1}
       \<and> \<lfloor>fmul (of_int tH) (srcAspect w h)\<rfloor> \<in> {tW - 1, tW}
       \<and> (compose w h tW tH True cover = compose w h tW tH True contain
            \<longleftrightarrow> \<lceil>fdiv (of_int tW) (srcAspect w h)\<rceil> = tH
                \<and> \<lfloor>fmul (of_int tH) (srcAspect w h)\<rfloor> = tW)"
proof -
  let ?s = "srcAspect w h"
  have c: "\<not> dstAspect tW tH < ?s" and le: "dstAspect tW tH \<le> ?s" using eq by simp_all
  note cv = cover_tall[OF assms(1-6) c] and ct = contain_tall[OF assms(1-6) c]
  have 1: "tH \<le> \<lceil>fdiv (of_int tW) ?s\<rceil>" by (rule cv(2))
  have 2: "\<lceil>fdiv (of_int tW) ?s\<rceil> \<le> tH + 1"
    by (rule ceiling_le_half, rule fdiv_le_target[OF assms(3,5,6) le])
  have 3: "\<lfloor>fmul (of_int tH) ?s\<rfloor> \<le> tW" by (rule ct(3))
  have 4: "tW - 1 \<le> \<lfloor>fmul (of_int tH) ?s\<rfloor>"
    by (rule floor_ge_half, rule fmul_ge_target[OF assms(3,4,5) le])
  have "(tW - \<lfloor>fmul (of_int tH) ?s\<rfloor>) div 2 = 0" using 3 4 by linarith
  then have B: "compose w h tW tH True contain =
           \<lparr>drawW = \<lfloor>fmul (of_int tH) ?s\<rfloor>, drawH = tH, dx = 0, dy = 0\<rparr>"
    using ct(1) by simp
  have 5: "\<lceil>fdiv (of_int tW) ?s\<rceil> \<in> {tH, tH + 1}" using 1 2 by auto
  have 6: "\<lfloor>fmul (of_int tH) ?s\<rfloor> \<in> {tW - 1, tW}" using 3 4 by auto
  have 7: "compose w h tW tH True cover = compose w h tW tH True contain
         \<longleftrightarrow> \<lceil>fdiv (of_int tW) ?s\<rceil> = tH \<and> \<lfloor>fmul (of_int tH) ?s\<rfloor> = tW"
    unfolding cv(1) B by auto
  from cv(1) B 5 6 7 show ?thesis by blast
qed

text \<open>
  The amended statement at the source 1000 by 500 and the target 512 by 256: both ratios are
  2, both roundings are exact, and the two policies draw 512 by 256 at the origin.
\<close>

theorem equal_aspect_witness:
  "(0::32 word) < 1000 \<and> (0::32 word) < 500 \<and> (1::int) \<le> 512 \<and> (512::int) \<le> 8000
   \<and> (1::int) \<le> 256 \<and> (256::int) \<le> 8000
   \<and> srcAspect 1000 500 = dstAspect 512 256
   \<and> \<lceil>fdiv (of_int 512) (srcAspect 1000 500)\<rceil> = 256
   \<and> \<lfloor>fmul (of_int 256) (srcAspect 1000 500)\<rfloor> = 512
   \<and> compose 1000 500 512 256 True cover = compose 1000 500 512 256 True contain"
  using equal_aspect[of 1000 500 512 256] double_aspect by simp

section \<open>The output list\<close>

text \<open>
  C7. \<open>addOutput\<close> appends exactly one entry, \<open>{width: 512, height: 512, format: "png"}\<close>,
  at the end: the old entries stay in place and in order, the length grows by one, and the
  preview index becomes the length the list had before.
\<close>

theorem addOutput_appends:
  "outputs (addOutput st) = outputs st @ [\<lparr>width = 512, height = 512, format = png\<rparr>]
   \<and> take (length (outputs st)) (outputs (addOutput st)) = outputs st
   \<and> length (outputs (addOutput st)) = length (outputs st) + 1
   \<and> previewIndex (addOutput st) = int (length (outputs st))"
  by (simp add: addOutput_def defaultOutput_def)

text \<open>
  C8. For a valid index, \<open>removeOutput\<close> removes exactly the entry at that index. When the
  list becomes empty no index is valid any more; otherwise the preview index becomes
  \<open>max(0, min(previousActive, newLength - 1))\<close>, a valid index of the remaining list; and
  removing the entry under preview from a list of N > 1 entries leaves the preview index
  at \<open>min(activeIndex, N - 2)\<close>.
\<close>

theorem removeOutput_valid:
  assumes "validIndex index (outputs st)"
  shows "removeOutput index st =
           Inr \<lparr>outputs = take (nat index) (outputs st) @ drop (Suc (nat index)) (outputs st),
                previewIndex = max 0 (min (previewIndex st) (int (length (outputs st)) - 2))\<rparr>
       \<and> length (take (nat index) (outputs st) @ drop (Suc (nat index)) (outputs st))
           = length (outputs st) - 1
       \<and> (length (outputs st) = 1 \<longrightarrow>
            take (nat index) (outputs st) @ drop (Suc (nat index)) (outputs st) = []
            \<and> (\<forall>i. \<not> validIndex i
                  (take (nat index) (outputs st) @ drop (Suc (nat index)) (outputs st))))
       \<and> (1 < length (outputs st) \<longrightarrow>
            max 0 (min (previewIndex st) (int (length (outputs st)) - 2))
              = max 0 (min (previewIndex st)
                  (int (length (take (nat index) (outputs st)
                     @ drop (Suc (nat index)) (outputs st))) - 1))
            \<and> validIndex (max 0 (min (previewIndex st) (int (length (outputs st)) - 2)))
                (take (nat index) (outputs st) @ drop (Suc (nat index)) (outputs st)))
       \<and> (1 < length (outputs st) \<longrightarrow> index = previewIndex st \<longrightarrow>
            max 0 (min (previewIndex st) (int (length (outputs st)) - 2))
              = min (previewIndex st) (int (length (outputs st)) - 2))"
proof -
  have n: "nat index < length (outputs st)" and i0: "0 \<le> index"
    using validIndex_nat[OF assms] by blast+
  have len: "length (take (nat index) (outputs st) @ drop (Suc (nat index)) (outputs st))
           = length (outputs st) - 1"
    using n by simp
  have eq: "removeOutput index st =
           Inr \<lparr>outputs = take (nat index) (outputs st) @ drop (Suc (nat index)) (outputs st),
                previewIndex = max 0 (min (previewIndex st) (int (length (outputs st)) - 2))\<rparr>"
    by (simp add: removeOutput_def remove_valid[OF assms])
  show ?thesis
    unfolding len using eq n i0 by (auto simp: validIndex_def)
qed

text \<open>
  The theorem on three outputs with the last one under preview: removing it leaves two
  outputs and the preview index 1. On a single output, removing it leaves the empty list.
\<close>

theorem removeOutput_valid_witness:
  "validIndex 2
     (outputs \<lparr>outputs = [defaultOutput, \<lparr>width = 64, height = 32, format = jpeg\<rparr>,
                          \<lparr>width = 800, height = 600, format = webp\<rparr>],
              previewIndex = 2\<rparr>)
   \<and> removeOutput 2
       \<lparr>outputs = [defaultOutput, \<lparr>width = 64, height = 32, format = jpeg\<rparr>,
                   \<lparr>width = 800, height = 600, format = webp\<rparr>],
        previewIndex = 2\<rparr>
     = Inr \<lparr>outputs = [defaultOutput, \<lparr>width = 64, height = 32, format = jpeg\<rparr>],
            previewIndex = 1\<rparr>
   \<and> validIndex 0 (outputs \<lparr>outputs = [defaultOutput], previewIndex = 0\<rparr>)
   \<and> removeOutput 0 \<lparr>outputs = [defaultOutput], previewIndex = 0\<rparr>
     = Inr \<lparr>outputs = [], previewIndex = 0\<rparr>
   \<and> \<not> validIndex 0 []"
  using removeOutput_valid[of 2
      "\<lparr>outputs = [defaultOutput, \<lparr>width = 64, height = 32, format = jpeg\<rparr>,
                   \<lparr>width = 800, height = 600, format = webp\<rparr>],
        previewIndex = 2\<rparr>"]
    removeOutput_valid[of 0 "\<lparr>outputs = [defaultOutput], previewIndex = 0\<rparr>"]
  by (simp add: validIndex_def)

text \<open>
  C9, as stated: \<open>updateOutput\<close> fails with an OutOfRange condition for every index that
  is not a position of the list. On the one-entry list, index 5 is not a position, and the
  call returns the state unchanged without any failure.
\<close>

theorem updateOutput_silent:
  "\<not> validIndex 5 (outputs \<lparr>outputs = [defaultOutput], previewIndex = 0\<rparr>)
   \<and> updateOutput 5 \<lparr>pwidth = Some 100, pheight = None, pformat = None\<rparr>
        \<lparr>outputs = [defaultOutput], previewIndex = 0\<rparr>
       = Inr \<lparr>outputs = [defaultOutput], previewIndex = 0\<rparr>
   \<and> updateOutput 5 \<lparr>pwidth = Some 100, pheight = None, pformat = None\<rparr>
        \<lparr>outputs = [defaultOutput], previewIndex = 0\<rparr>
       \<noteq> Inl OutOfRange"
  by (simp add: updateOutput_def validIndex_def)

text \<open>
  C9, amended. \<open>updateOutput(index, partialFields)\<close> never fails. For a valid index it
  replaces the entry at that index by its spread with the patch, in which each supplied
  field is the patch's and each other field is the entry's, and leaves every other entry
  and the preview index as they were; for any other index it returns the state unchanged.
\<close>

theorem updateOutput_patches:
  "updateOutput index patch st =
     Inr (st\<lparr>outputs :=
            if validIndex index (outputs st)
            then (outputs st)[nat index := spread (outputs st ! nat index) patch]
            else outputs st\<rparr>)
   \<and> width (spread x patch) = (case pwidth patch of Some v \<Rightarrow> v | None \<Rightarrow> width x)
   \<and> height (spread x patch) = (case pheight patch of Some v \<Rightarrow> v | None \<Rightarrow> height x)
   \<and> format (spread x patch) = (case pformat patch of Some v \<Rightarrow> v | None \<Rightarrow> format x)"
  by (simp add: updateOutput_def update_valid update_invalid spread_def)

text \<open>
  The amended statement on two outputs: a patch of the width at index 1 changes that width
  only.
\<close>

theorem updateOutput_patches_witness:
  "updateOutput 1 \<lparr>pwidth = Some 100, pheight = None, pformat = None\<rparr>
     \<lparr>outputs = [defaultOutput, \<lparr>width = 64, height = 32, format = jpeg\<rparr>],
      previewIndex = 0\<rparr>
   = Inr \<lparr>outputs = [defaultOutput, \<lparr>width = 100, height = 32, format = jpeg\<rparr>],
          previewIndex = 0\<rparr>"
  using updateOutput_patches[of 1 "\<lparr>pwidth = Some 100, pheight = None, pformat = None\<rparr>"
      "\<lparr>outputs = [defaultOutput, \<lparr>width = 64, height = 32, format = jpeg\<rparr>],
        previewIndex = 0\<rparr>"]
  by (simp add: validIndex_def spread_def)

text \<open>
  C10. For an index that is not a position of the list of length N, \<open>removeOutput\<close> leaves
  the list as it is and still sets the preview index to \<open>max(0, min(previousActive, N -
  2))\<close>; with N > 1 and the last entry under preview the index drops from N - 1 to N - 2
  although nothing was removed.
\<close>

theorem removeOutput_out_of_range:
  assumes "\<not> validIndex index (outputs st)"
  shows "removeOutput index st =
           Inr (st\<lparr>previewIndex :=
                  max 0 (min (previewIndex st) (int (length (outputs st)) - 2))\<rparr>)
       \<and> (1 < length (outputs st) \<longrightarrow> previewIndex st = int (length (outputs st)) - 1 \<longrightarrow>
            removeOutput index st
              = Inr \<lparr>outputs = outputs st, previewIndex = int (length (outputs st)) - 2\<rparr>
            \<and> int (length (outputs st)) - 2 \<noteq> previewIndex st)"
  by (auto simp: removeOutput_def remove_invalid[OF assms])

text \<open>
  The theorem on two outputs with the second under preview and the index 7: the list is
  kept and the preview index becomes 0.
\<close>

theorem removeOutput_out_of_range_witness:
  "\<not> validIndex 7
       (outputs \<lparr>outputs = [defaultOutput, \<lparr>width = 64, height = 32, format = jpeg\<rparr>],
                previewIndex = 1\<rparr>)
   \<and> removeOutput 7
        \<lparr>outputs = [defaultOutput, \<lparr>width = 64, height = 32, format = jpeg\<rparr>],
         previewIndex = 1\<rparr>
      = Inr \<lparr>outputs = [defaultOutput, \<lparr>width = 64, height = 32, format = jpeg\<rparr>],
             previewIndex = 0\<rparr>"
  using removeOutput_out_of_range[of 7
      "\<lparr>outputs = [defaultOutput, \<lparr>width = 64, height = 32, format = jpeg\<rparr>],
        previewIndex = 1\<rparr>"]
  by (simp add: validIndex_def)

end
